theory Spec2Isabelle
  imports Main "HOL-Library.Word"
begin

unbundle bit_operations_syntax

datatype error =
    NotImplementedError
  | ZeroDivisionError
  | IndexError
  | ValueError string
  | BinasciiError string
  | UnicodeDecodeError
  | UnicodeEncodeError

type_synonym byte = "8 word"

definition NUM_STATE_BITS :: nat where
  "NUM_STATE_BITS = 64"

definition full_range :: int where
  "full_range = push_bit NUM_STATE_BITS 1"

definition half_range :: int where
  "half_range = drop_bit 1 full_range"

definition quarter_range :: int where
  "quarter_range = drop_bit 1 half_range"

definition state_mask :: int where
  "state_mask = full_range - 1"

record 'x coder =
  low :: int
  high :: int
  sub :: 'x

definition coder_init :: "'x \<Rightarrow> 'x coder" where
  "coder_init x = \<lparr>low = 0, high = state_mask, sub = x\<rparr>"

definition zeros_from :: "nat \<Rightarrow> int \<Rightarrow> nat" where
  "zeros_from n a = card {k. 1 \<le> k \<and> k \<le> n \<and> \<not> 2 ^ k dvd a}"

lemma zeros_from_less:
  assumes step: "\<And>k. k < n \<Longrightarrow> 2 ^ k dvd a \<Longrightarrow> 2 ^ Suc k dvd a'"
    and top: "\<not> 2 ^ n dvd a"
  shows "zeros_from n a' < zeros_from n a"
proof -
  let ?S = "{k. 1 \<le> k \<and> k \<le> n \<and> \<not> 2 ^ k dvd a}"
  let ?S' = "{k. 1 \<le> k \<and> k \<le> n \<and> \<not> 2 ^ k dvd a'}"
  let ?T = "{k. 1 \<le> k \<and> k < n \<and> \<not> 2 ^ k dvd a}"
  have fin: "finite ?S" by simp
  have "?S' \<subseteq> Suc ` ?T"
  proof
    fix k assume k: "k \<in> ?S'"
    then obtain j where j: "k = Suc j" by (cases k) auto
    from k j have jn: "j < n" and nd: "\<not> 2 ^ Suc j dvd a'" by auto
    from step [OF jn] nd have ndj: "\<not> 2 ^ j dvd a" by blast
    then have "1 \<le> j" by (cases j) auto
    with jn ndj have "j \<in> ?T" by simp
    with j show "k \<in> Suc ` ?T" by blast
  qed
  then have "card ?S' \<le> card (Suc ` ?T)"
    by (intro card_mono) auto
  also have "\<dots> = card ?T"
    by (simp add: card_image)
  also have "\<dots> < card ?S"
  proof (rule psubset_card_mono [OF fin])
    have n1: "1 \<le> n" using top by (cases n) auto
    have "n \<in> ?S" using top n1 by simp
    moreover have "n \<notin> ?T" by simp
    ultimately show "?T \<subset> ?S" by auto
  qed
  finally show ?thesis by (simp add: zeros_from_def)
qed

lemma zeros_from_le:
  assumes step: "\<And>k. k < n \<Longrightarrow> 2 ^ k dvd a \<Longrightarrow> 2 ^ Suc k dvd a'"
  shows "zeros_from n a' \<le> zeros_from n a"
proof -
  let ?S = "{k. 1 \<le> k \<and> k \<le> n \<and> \<not> 2 ^ k dvd a}"
  let ?S' = "{k. 1 \<le> k \<and> k \<le> n \<and> \<not> 2 ^ k dvd a'}"
  let ?T = "{k. 1 \<le> k \<and> k < n \<and> \<not> 2 ^ k dvd a}"
  have "?S' \<subseteq> Suc ` ?T"
  proof
    fix k assume k: "k \<in> ?S'"
    then obtain j where j: "k = Suc j" by (cases k) auto
    from k j have jn: "j < n" and nd: "\<not> 2 ^ Suc j dvd a'" by auto
    from step [OF jn] nd have ndj: "\<not> 2 ^ j dvd a" by blast
    then have "1 \<le> j" by (cases j) auto
    with jn ndj have "j \<in> ?T" by simp
    with j show "k \<in> Suc ` ?T" by blast
  qed
  then have "card ?S' \<le> card (Suc ` ?T)"
    by (intro card_mono) auto
  also have "\<dots> = card ?T"
    by (simp add: card_image)
  also have "\<dots> \<le> card ?S"
    by (intro card_mono) auto
  finally show ?thesis by (simp add: zeros_from_def)
qed

lemma consts_simps:
  "full_range = 2 ^ 64" "half_range = 2 ^ 63" "quarter_range = 2 ^ 62" "state_mask = 2 ^ 64 - 1"
  by (simp_all add: full_range_def half_range_def quarter_range_def state_mask_def NUM_STATE_BITS_def)

lemma state_mask_mask: "state_mask = mask 64"
  by (simp add: consts_simps mask_eq_exp_minus_1)

lemma shl_mask: "push_bit 1 (a::int) AND state_mask = (2 * a) mod 2 ^ 64"
  unfolding state_mask_mask by (simp only: push_bit_eq_mult take_bit_eq_mod flip: take_bit_eq_mask) (simp add: mult.commute)

lemma even_or1: "((2 * a) mod 2 ^ 64 :: int) OR 1 = (2 * a) mod 2 ^ 64 + 1"
proof -
  have "even ((2 * a) mod 2 ^ 64)" by (simp add: dvd_mod)
  then show ?thesis by (simp add: or_one_eq)
qed

lemma top_bits_agree: "((a XOR b) AND half_range = 0) = (bit (a::int) 63 = bit b 63)"
  unfolding consts_simps and_exp_eq_0_iff_not_bit bit_xor_iff by auto


function shift_loop :: "('x coder \<Rightarrow> error + 'x) \<Rightarrow> 'x coder \<Rightarrow> error + 'x coder" where
  "shift_loop shift c =
     (if (low c XOR high c) AND half_range = 0 then
        (case shift c of
           Inl e \<Rightarrow> Inl e
         | Inr x \<Rightarrow>
             shift_loop shift
               (c\<lparr>sub := x,
                  low := push_bit 1 (low c) AND state_mask,
                  high := (push_bit 1 (high c) AND state_mask) OR 1\<rparr>))
      else Inr c)"
  by pat_completeness auto

lemma shift_loop_decreases:
  assumes "(l XOR h) AND half_range = 0"
  shows "zeros_from 64 ((2 * l) mod 2 ^ 64) + zeros_from 64 ((2 * h) mod 2 ^ 64 + 1 + 1)
          < zeros_from 64 l + zeros_from 64 (h + 1)"
proof -
  have sl: "2 ^ Suc k dvd (2 * a) mod 2 ^ 64" if "k < 64" "2 ^ k dvd a" for k and a :: int
  proof -
    have "(2::int) ^ Suc k dvd 2 ^ 64" using that(1) by (intro le_imp_power_dvd) simp
    moreover have "(2::int) ^ Suc k dvd 2 * a" using that(2) by simp
    ultimately show ?thesis by (simp add: dvd_mod)
  qed
  have sh: "2 ^ Suc k dvd (2 * h) mod 2 ^ 64 + 1 + 1" if "k < 64" "2 ^ k dvd h + 1" for k
  proof -
    have d: "(2::int) ^ Suc k dvd 2 ^ 64" using that(1) by (intro le_imp_power_dvd) simp
    have "(2::int) ^ Suc k dvd 2 * (h + 1)"
      unfolding power_Suc using that(2) by (intro mult_dvd_mono dvd_refl)
    moreover have "2 * (h + 1) = 2 * h + 2" by simp
    ultimately have "(2::int) ^ Suc k dvd 2 * h + 2" by (simp only:)
    then have "2 ^ Suc k dvd (2 * h + 2) mod 2 ^ 64" using d by (simp only: dvd_mod)
    moreover have "((2 * h) mod 2 ^ 64 + 2) mod 2 ^ 64 = (2 * h + 2) mod (2 ^ 64 :: int)"
      by (simp add: mod_simps)
    ultimately have "2 ^ Suc k dvd ((2 * h) mod 2 ^ 64 + 2) mod 2 ^ 64" by simp
    then have "2 ^ Suc k dvd (2 * h) mod 2 ^ 64 + 2" using d
      by (meson dvd_mod_iff)
    then show ?thesis by (simp add: add.assoc)
  qed
  have "\<not> 2 ^ 64 dvd l \<or> \<not> 2 ^ 64 dvd h + 1"
  proof (rule ccontr)
    assume "\<not> ?thesis"
    then have dl: "2 ^ 64 dvd l" and dh: "2 ^ 64 dvd h + 1" by auto
    have "\<not> bit l 63" using dl by (auto simp: bit_iff_odd elim!: dvdE)
    moreover have "bit h 63"
    proof -
      from dh obtain q where "h + 1 = 2 ^ 64 * q" by (auto elim: dvdE)
      then have h: "h = 2 ^ 64 * q - 1" by simp
      have "h div 2 ^ 63 = 2 * q - 1" unfolding h by (simp add: div_eq_minus1 zdiv_zminus1_eq_if) presburger?
      then show ?thesis by (simp add: bit_iff_odd)
    qed
    ultimately show False using assms by (simp add: top_bits_agree)
  qed
  then show ?thesis
  proof
    assume "\<not> 2 ^ 64 dvd l"
    from zeros_from_less [of 64 l "(2 * l) mod 2 ^ 64", OF sl this]
      zeros_from_le [of 64 "h + 1" "(2 * h) mod 2 ^ 64 + 1 + 1", OF sh]
    show ?thesis by linarith
  next
    assume "\<not> 2 ^ 64 dvd h + 1"
    from zeros_from_less [of 64 "h + 1" "(2 * h) mod 2 ^ 64 + 1 + 1", OF sh this]
      zeros_from_le [of 64 l "(2 * l) mod 2 ^ 64", OF sl]
    show ?thesis by linarith
  qed
qed

termination shift_loop
proof (relation "measure (\<lambda>(shift, c). zeros_from 64 (low c) + zeros_from 64 (high c + 1))", goal_cases)
  case 1
  show ?case by simp
next
  case (2 shift c x)
  have "zeros_from 64 (push_bit 1 (low c) AND state_mask)
          + zeros_from 64 (((push_bit 1 (high c) AND state_mask) OR 1) + 1)
        < zeros_from 64 (low c) + zeros_from 64 (high c + 1)"
    unfolding shl_mask even_or1 using 2(1) by (rule shift_loop_decreases)
  then show ?case by simp
qed


function underflow_loop :: "('x coder \<Rightarrow> error + 'x) \<Rightarrow> 'x coder \<Rightarrow> error + 'x coder" where
  "underflow_loop underflow c =
     (if (low c AND NOT (high c)) AND quarter_range \<noteq> 0 then
        (case underflow c of
           Inl e \<Rightarrow> Inl e
         | Inr x \<Rightarrow>
             underflow_loop underflow
               (c\<lparr>sub := x,
                  low := push_bit 1 (low c) XOR half_range,
                  high := (push_bit 1 (high c XOR half_range) OR half_range) OR 1\<rparr>))
      else Inr c)"
  by pat_completeness auto

lemma xor_exp_int: "(a::int) XOR 2 ^ n = (if bit a n then a - 2 ^ n else a + 2 ^ n)"
proof -
  have "a XOR 2 ^ n = flip_bit n a" by (simp add: flip_bit_eq_xor)
  then show ?thesis
    by (simp add: flip_bit_eq_if set_bit_eq unset_bit_eq)
qed

lemma e3_cond: "((l AND NOT h) AND quarter_range \<noteq> 0) = (bit (l::int) 62 \<and> \<not> bit h 62)"
  unfolding consts_simps and_exp_eq_0_iff_not_bit bit_and_iff bit_not_iff by auto

lemma underflow_loop_decreases:
  assumes "bit (l::int) 62"
  shows "zeros_from 63 (push_bit 1 l XOR half_range) < zeros_from 63 l"
proof (rule zeros_from_less)
  fix k :: nat assume k: "k < 63" and d: "2 ^ k dvd l"
  have d1: "(2::int) ^ Suc k dvd 2 ^ 63" using k by (intro le_imp_power_dvd) simp
  have d2: "(2::int) ^ Suc k dvd 2 * l" unfolding power_Suc using d by (intro mult_dvd_mono dvd_refl)
  show "2 ^ Suc k dvd push_bit 1 l XOR half_range"
    unfolding consts_simps xor_exp_int push_bit_eq_mult using d1 d2 by (auto simp: mult.commute)
next
  show "\<not> 2 ^ 63 dvd l"
  proof
    assume "2 ^ 63 dvd l"
    then obtain q where "l = 2 ^ 63 * q" by (auto elim: dvdE)
    then have "l div 2 ^ 62 = 2 * q" by simp
    then have "\<not> bit l 62" by (simp add: bit_iff_odd)
    with assms show False by simp
  qed
qed

termination underflow_loop
proof (relation "measure (\<lambda>(underflow, c). zeros_from 63 (low c))", goal_cases)
  case 1
  show ?case by simp
next
  case (2 underflow c x)
  then have "bit (low c) 62" by (simp only: e3_cond)
  then have "zeros_from 63 (push_bit 1 (low c) XOR half_range) < zeros_from 63 (low c)"
    by (rule underflow_loop_decreases)
  then show ?case by simp
qed

declare shift_loop.simps [simp del] underflow_loop.simps [simp del]

definition update ::
  "('x coder \<Rightarrow> error + 'x) \<Rightarrow> ('x coder \<Rightarrow> error + 'x) \<Rightarrow> int list \<Rightarrow> nat \<Rightarrow> 'x coder
     \<Rightarrow> error + 'x coder" where
  "update shift underflow cum_freqs symbol c =
     (if cum_freqs = [] then Inl IndexError
      else
        let total = last cum_freqs;
            range = high c - low c + 1
        in if length cum_freqs \<le> symbol then Inl IndexError
           else
             let symhigh = cum_freqs ! symbol
             in if total = 0 then Inl ZeroDivisionError
                else
                  let c1 = c\<lparr>high := low c + symhigh * range div total - 1\<rparr>;
                      symlow = (if symbol > 0 then cum_freqs ! (symbol - 1) else 0);
                      c2 = c1\<lparr>low := low c1 + symlow * range div total\<rparr>
                  in case shift_loop shift c2 of
                       Inl e \<Rightarrow> Inl e
                     | Inr c3 \<Rightarrow> underflow_loop underflow c3)"

definition base_shift :: "'x coder \<Rightarrow> error + 'x" where
  "base_shift c = Inl NotImplementedError"

definition base_underflow :: "'x coder \<Rightarrow> error + 'x" where
  "base_underflow c = Inl NotImplementedError"

record encoder_state =
  encoded_data :: "byte list"
  bit_index :: nat
  num_underflow :: nat

type_synonym encoder = "encoder_state coder"

definition Encoder_init :: encoder where
  "Encoder_init = coder_init \<lparr>encoded_data = [], bit_index = 8, num_underflow = 0\<rparr>"

definition get_encoded :: "encoder \<Rightarrow> byte list" where
  "get_encoded e = encoded_data (sub e)"

definition append_bit :: "encoder_state \<Rightarrow> int \<Rightarrow> error + encoder_state" where
  "append_bit x b =
     (let x1 = (if encoder_state.bit_index x = 8
                then x\<lparr>encoded_data := encoded_data x @ [0], encoder_state.bit_index := 0\<rparr>
                else x)
      in if encoded_data x1 = [] then Inl IndexError
         else if 7 < encoder_state.bit_index x1 then Inl (ValueError ''negative shift count'')
         else
           let v = uint (last (encoded_data x1)) OR push_bit (7 - encoder_state.bit_index x1) b
           in if 0 \<le> v \<and> v < 256
              then Inr (x1\<lparr>encoded_data := butlast (encoded_data x1) @ [word_of_int v],
                           encoder_state.bit_index := encoder_state.bit_index x1 + 1\<rparr>)
              else Inl (ValueError ''byte must be in range(0, 256)''))"

fun append_bit_times :: "nat \<Rightarrow> int \<Rightarrow> encoder_state \<Rightarrow> error + encoder_state" where
  "append_bit_times 0 b x = Inr x"
| "append_bit_times (Suc n) b x =
     (case append_bit x b of Inl e \<Rightarrow> Inl e | Inr x' \<Rightarrow> append_bit_times n b x')"

definition Encoder_shift :: "encoder \<Rightarrow> error + encoder_state" where
  "Encoder_shift c =
     (let b = drop_bit (NUM_STATE_BITS - 1) (low c)
      in case append_bit (sub c) b of
           Inl e \<Rightarrow> Inl e
         | Inr x \<Rightarrow>
             (case append_bit_times (num_underflow x) (b XOR 1) x of
                Inl e \<Rightarrow> Inl e
              | Inr x' \<Rightarrow> Inr (x'\<lparr>num_underflow := 0\<rparr>)))"

definition Encoder_underflow :: "encoder \<Rightarrow> error + encoder_state" where
  "Encoder_underflow c = Inr ((sub c)\<lparr>num_underflow := num_underflow (sub c) + 1\<rparr>)"

definition encode_symbol :: "encoder \<Rightarrow> int list \<Rightarrow> nat \<Rightarrow> error + encoder" where
  "encode_symbol e cum_freqs symbol = update Encoder_shift Encoder_underflow cum_freqs symbol e"

definition finish :: "encoder \<Rightarrow> error + encoder" where
  "finish e = (case append_bit (sub e) 1 of Inl err \<Rightarrow> Inl err | Inr x \<Rightarrow> Inr (e\<lparr>sub := x\<rparr>))"

record decoder_state =
  input :: "byte list"
  byte_index :: nat
  bit_index :: nat
  code :: int

type_synonym decoder = "decoder_state coder"

definition read_code_bit :: "decoder_state \<Rightarrow> error + (int \<times> decoder_state)" where
  "read_code_bit d =
     (if length (input d) \<le> byte_index d then Inr (0, d)
      else if 7 < decoder_state.bit_index d then Inl (ValueError ''negative shift count'')
      else
        let b = drop_bit (7 - decoder_state.bit_index d) (uint (input d ! byte_index d)) AND 1;
            d1 = d\<lparr>decoder_state.bit_index := (decoder_state.bit_index d + 1) mod 8\<rparr>;
            d2 = (if decoder_state.bit_index d1 = 0 then d1\<lparr>byte_index := byte_index d1 + 1\<rparr> else d1)
        in Inr (b, d2))"

fun read_code_bits ::
  "nat list \<Rightarrow> int \<Rightarrow> decoder_state \<Rightarrow> error + (int \<times> decoder_state)" where
  "read_code_bits [] acc d = Inr (acc, d)"
| "read_code_bits (i # is) acc d =
     (case read_code_bit d of
        Inl e \<Rightarrow> Inl e
      | Inr (b, d') \<Rightarrow> read_code_bits is (acc + push_bit i b) d')"

definition Decoder_init :: "byte list \<Rightarrow> error + decoder" where
  "Decoder_init data =
     (let d0 = \<lparr>input = data, byte_index = 0, bit_index = 0, code = 0\<rparr>
      in case read_code_bits (rev [0..<NUM_STATE_BITS]) 0 d0 of
           Inl e \<Rightarrow> Inl e
         | Inr (v, d1) \<Rightarrow> Inr (coder_init (d1\<lparr>code := v\<rparr>)))"

definition Decoder_shift :: "decoder \<Rightarrow> error + decoder_state" where
  "Decoder_shift c =
     (case read_code_bit (sub c) of
        Inl e \<Rightarrow> Inl e
      | Inr (b, d) \<Rightarrow> Inr (d\<lparr>code := (push_bit 1 (code (sub c)) AND state_mask) OR b\<rparr>))"

definition Decoder_underflow :: "decoder \<Rightarrow> error + decoder_state" where
  "Decoder_underflow c =
     (case read_code_bit (sub c) of
        Inl e \<Rightarrow> Inl e
      | Inr (b, d) \<Rightarrow>
          Inr (d\<lparr>code := ((code (sub c) AND half_range)
                            OR (push_bit 1 (code (sub c)) AND drop_bit 1 state_mask))
                           OR b\<rparr>))"

text \<open>
  Modelled from the numpy library, which is not part of the repository:
  \<open>np.searchsorted(a, v, side="right")\<close> for a key \<open>v\<close> that is a Python int.

  \<^item> The coder reads a CDF through \<open>int(cum_freqs[i])\<close> only, but \<open>np.searchsorted\<close> sees
    the object it is given. An \<open>array_like\<close> is a CDF with integral entries together with
    the way it is passed: \<open>PyList\<close> is a Python list of ints, \<open>FloatArray\<close> a numpy array
    of floating-point numbers (what \<open>compute_cdf\<close> returns), each entry represented by
    its value.
  \<^item> numpy converts the list to an array. A Python int in the range of a signed 64-bit
    integer is found to be \<open>int64\<close>, one up to \<open>2^64 - 1\<close> is \<open>uint64\<close>, any other is a
    Python object; the array's type is the promotion of the types of its entries, and
    \<open>int64\<close> and \<open>uint64\<close> promote to \<open>float64\<close>. An empty list is a \<open>float64\<close> array.
  \<^item> The key is converted in the same way, and array and key are compared in the
    promotion of their two types. A floating-point array and an integer key are compared
    as \<open>float64\<close>. Python objects are compared exactly.
  \<^item> The conversion of an integer to \<open>float64\<close> rounds to 53 significant bits, to nearest,
    ties to even (\<open>float64_of_int\<close>).
  \<^item> The search is the binary search \<open>bisect_right\<close> on the converted entries.
\<close>

datatype array_like = PyList "int list" | FloatArray "int list"

fun elems :: "array_like \<Rightarrow> int list" where
  "elems (PyList xs) = xs"
| "elems (FloatArray xs) = xs"

datatype dtype = Int64 | UInt64 | Float64 | Object

definition int_dtype :: "int \<Rightarrow> dtype" where
  "int_dtype v =
     (if - (2 ^ 63) \<le> v \<and> v < 2 ^ 63 then Int64
      else if 2 ^ 63 \<le> v \<and> v < 2 ^ 64 then UInt64
      else Object)"

fun promote_types :: "dtype \<Rightarrow> dtype \<Rightarrow> dtype" where
  "promote_types Object t = Object"
| "promote_types t Object = Object"
| "promote_types Float64 t = Float64"
| "promote_types t Float64 = Float64"
| "promote_types Int64 Int64 = Int64"
| "promote_types UInt64 UInt64 = UInt64"
| "promote_types Int64 UInt64 = Float64"
| "promote_types UInt64 Int64 = Float64"

fun asarray_dtype :: "array_like \<Rightarrow> dtype" where
  "asarray_dtype (PyList []) = Float64"
| "asarray_dtype (PyList (x # xs)) = foldl promote_types (int_dtype x) (map int_dtype xs)"
| "asarray_dtype (FloatArray xs) = Float64"

function bit_length :: "int \<Rightarrow> nat" where
  "bit_length n = (if n \<le> 0 then 0 else Suc (bit_length (n div 2)))"
  by pat_completeness auto
termination
  by (relation "measure nat") auto

declare bit_length.simps [simp del]

definition float64_of_int :: "int \<Rightarrow> int" where
  "float64_of_int n =
     (let a = \<bar>n\<bar>;
          e = bit_length a - 53
      in if e = 0 then n
         else
           let q = drop_bit e a;
               r = take_bit e a;
               half = 2 ^ (e - 1);
               q' = (if half < r \<or> (r = half \<and> odd q) then q + 1 else q)
           in sgn n * push_bit e q')"

fun cast :: "dtype \<Rightarrow> int \<Rightarrow> int" where
  "cast Float64 v = float64_of_int v"
| "cast t v = v"

function bisect_right :: "int list \<Rightarrow> int \<Rightarrow> nat \<Rightarrow> nat \<Rightarrow> nat" where
  "bisect_right a v lo hi =
     (if lo < hi then
        (let mid = lo + (hi - lo) div 2
         in if a ! mid \<le> v then bisect_right a v (mid + 1) hi
            else bisect_right a v lo mid)
      else lo)"
  by pat_completeness auto
termination
  by (relation "measure (\<lambda>(a, v, lo, hi). hi - lo)") auto

declare bisect_right.simps [simp del]

definition searchsorted :: "array_like \<Rightarrow> int \<Rightarrow> nat" where
  "searchsorted a v =
     (let t = promote_types (asarray_dtype a) (int_dtype v);
          keys = map (cast t) (elems a)
      in bisect_right keys (cast t v) 0 (length keys))"

definition decode_symbol :: "decoder \<Rightarrow> array_like \<Rightarrow> error + (nat \<times> decoder)" where
  "decode_symbol c cum_freqs =
     (if elems cum_freqs = [] then Inl IndexError
      else
        let total = last (elems cum_freqs);
            range = high c - low c + 1;
            offset = code (sub c) - low c
        in if range = 0 then Inl ZeroDivisionError
           else
             let value = ((offset + 1) * total - 1) div range;
                 symbol = searchsorted cum_freqs value
             in case update Decoder_shift Decoder_underflow (elems cum_freqs) symbol c of
                  Inl e \<Rightarrow> Inl e
                | Inr c' \<Rightarrow> Inr (symbol, c'))"

fun encode_all :: "encoder \<Rightarrow> (int list \<times> nat) list \<Rightarrow> error + encoder" where
  "encode_all e [] = Inr e"
| "encode_all e ((cum_freqs, symbol) # ps) =
     (case encode_symbol e cum_freqs symbol of
        Inl err \<Rightarrow> Inl err
      | Inr e' \<Rightarrow> encode_all e' ps)"

fun decode_all :: "decoder \<Rightarrow> array_like list \<Rightarrow> error + (nat list \<times> decoder)" where
  "decode_all d [] = Inr ([], d)"
| "decode_all d (cum_freqs # cs) =
     (case decode_symbol d cum_freqs of
        Inl err \<Rightarrow> Inl err
      | Inr (s, d') \<Rightarrow>
          (case decode_all d' cs of
             Inl err \<Rightarrow> Inl err
           | Inr (ss, d'') \<Rightarrow> Inr (s # ss, d'')))"

definition encode :: "(int list \<times> nat) list \<Rightarrow> error + byte list" where
  "encode ps =
     (case encode_all Encoder_init ps of
        Inl err \<Rightarrow> Inl err
      | Inr e \<Rightarrow> (case finish e of Inl err \<Rightarrow> Inl err | Inr e' \<Rightarrow> Inr (get_encoded e')))"

definition decode :: "byte list \<Rightarrow> array_like list \<Rightarrow> error + nat list" where
  "decode data cs =
     (case Decoder_init data of
        Inl err \<Rightarrow> Inl err
      | Inr d0 \<Rightarrow>
          (case decode_all d0 cs of
             Inl err \<Rightarrow> Inl err
           | Inr (ss, d) \<Rightarrow> Inr ss))"

definition in_word :: "'x coder \<Rightarrow> bool" where
  "in_word c \<longleftrightarrow> 0 \<le> low c \<and> low c \<le> high c \<and> high c < full_range"

definition straddles :: "'x coder \<Rightarrow> bool" where
  "straddles c \<longleftrightarrow> 0 \<le> low c \<and> low c < half_range \<and> half_range \<le> high c \<and> high c < full_range"

definition coder_inv :: "'x coder \<Rightarrow> bool" where
  "coder_inv c \<longleftrightarrow> straddles c \<and> \<not> (quarter_range \<le> low c \<and> high c < 3 * quarter_range)"

lemma bit63_iff: "0 \<le> a \<Longrightarrow> a < 2 ^ 64 \<Longrightarrow> bit (a::int) 63 \<longleftrightarrow> 2 ^ 63 \<le> a"
proof -
  assume a: "0 \<le> a" "a < 2 ^ 64"
  have "a div 2 ^ 63 = (if 2 ^ 63 \<le> a then 1 else 0)" using a by (auto simp: div_pos_pos_trivial) 
  then show ?thesis by (simp add: bit_iff_odd)
qed

lemma bit62_low: "0 \<le> a \<Longrightarrow> a < 2 ^ 63 \<Longrightarrow> bit (a::int) 62 \<longleftrightarrow> 2 ^ 62 \<le> a"
proof -
  assume a: "0 \<le> a" "a < 2 ^ 63"
  have "a div 2 ^ 62 = (if 2 ^ 62 \<le> a then 1 else 0)" using a by (auto simp: div_pos_pos_trivial) 
  then show ?thesis by (simp add: bit_iff_odd)
qed

lemma bit62_high: "2 ^ 63 \<le> a \<Longrightarrow> a < 2 ^ 64 \<Longrightarrow> bit (a::int) 62 \<longleftrightarrow> 3 * 2 ^ 62 \<le> a"
proof -
  assume a: "2 ^ 63 \<le> a" "a < 2 ^ 64"
  have "a div 2 ^ 62 = (if 3 * 2 ^ 62 \<le> a then 3 else 2)" using a by auto
  then show ?thesis by (simp add: bit_iff_odd)
qed


definition shift_next :: "'x coder \<Rightarrow> 'x \<Rightarrow> 'x coder" where
  "shift_next c x = c\<lparr>sub := x,
                       low := push_bit 1 (low c) AND state_mask,
                       high := (push_bit 1 (high c) AND state_mask) OR 1\<rparr>"

definition underflow_next :: "'x coder \<Rightarrow> 'x \<Rightarrow> 'x coder" where
  "underflow_next c x = c\<lparr>sub := x,
                           low := push_bit 1 (low c) XOR half_range,
                           high := (push_bit 1 (high c XOR half_range) OR half_range) OR 1\<rparr>"

lemma shift_loop_unfold:
  "shift_loop shift c =
     (if (low c XOR high c) AND half_range = 0 then
        (case shift c of Inl e \<Rightarrow> Inl e | Inr x \<Rightarrow> shift_loop shift (shift_next c x))
      else Inr c)"
  unfolding shift_next_def by (subst shift_loop.simps) (rule refl)

lemma underflow_loop_unfold:
  "underflow_loop underflow c =
     (if (low c AND NOT (high c)) AND quarter_range \<noteq> 0 then
        (case underflow c of Inl e \<Rightarrow> Inl e | Inr x \<Rightarrow> underflow_loop underflow (underflow_next c x))
      else Inr c)"
  unfolding underflow_next_def by (subst underflow_loop.simps) (rule refl)

lemma shift_loop_rule:
  assumes "P c"
    and "\<And>c. P c \<Longrightarrow> (low c XOR high c) AND half_range = 0
            \<Longrightarrow> \<exists>x. shift c = Inr x \<and> P (shift_next c x)"
  shows "\<exists>c'. shift_loop shift c = Inr c' \<and> P c' \<and> (low c' XOR high c') AND half_range \<noteq> 0"
  using assms
proof (induction shift c rule: shift_loop.induct)
  case (1 shift c)
  show ?case
  proof (cases "(low c XOR high c) AND half_range = 0")
    case True
    from "1.prems"(2) [OF "1.prems"(1) True] obtain x where x: "shift c = Inr x" "P (shift_next c x)"
      by blast
    from "1.IH" [OF True x(1) _ "1.prems"(2)] x(2)
    have "\<exists>c'. shift_loop shift (shift_next c x) = Inr c' \<and> P c'
            \<and> (low c' XOR high c') AND half_range \<noteq> 0"
      by (simp add: shift_next_def)
    then show ?thesis
      by (subst shift_loop_unfold) (simp add: True x(1))
  next
    case False
    then show ?thesis using "1.prems"(1) by (subst shift_loop_unfold) simp
  qed
qed

lemma underflow_loop_rule:
  assumes "P c"
    and "\<And>c. P c \<Longrightarrow> (low c AND NOT (high c)) AND quarter_range \<noteq> 0
            \<Longrightarrow> \<exists>x. underflow c = Inr x \<and> P (underflow_next c x)"
  shows "\<exists>c'. underflow_loop underflow c = Inr c' \<and> P c'
           \<and> (low c' AND NOT (high c')) AND quarter_range = 0"
  using assms
proof (induction underflow c rule: underflow_loop.induct)
  case (1 underflow c)
  show ?case
  proof (cases "(low c AND NOT (high c)) AND quarter_range \<noteq> 0")
    case True
    from "1.prems"(2) [OF "1.prems"(1) True] obtain x where
      x: "underflow c = Inr x" "P (underflow_next c x)"
      by blast
    from "1.IH" [OF True x(1) _ "1.prems"(2)] x(2)
    have "\<exists>c'. underflow_loop underflow (underflow_next c x) = Inr c' \<and> P c'
            \<and> (low c' AND NOT (high c')) AND quarter_range = 0"
      by (simp add: underflow_next_def)
    then show ?thesis using True
      by (subst underflow_loop_unfold) (simp add: x(1))
  next
    case False
    then show ?thesis using "1.prems"(1) by (subst underflow_loop_unfold) simp
  qed
qed

lemma shift_step_arith:
  assumes "0 \<le> l" "l \<le> h" "h < 2 ^ 64" "bit (l::int) 63 = bit h 63"
  shows "0 \<le> (2 * l) mod 2 ^ 64" "(2 * l) mod 2 ^ 64 \<le> (2 * h) mod 2 ^ 64 + 1"
    "(2 * h) mod 2 ^ 64 + 1 < 2 ^ 64"
    "(2 * l) mod 2 ^ 64 = (if 2 ^ 63 \<le> l then 2 * l - 2 ^ 64 else 2 * l)"
    "(2 * h) mod 2 ^ 64 = (if 2 ^ 63 \<le> l then 2 * h - 2 ^ 64 else 2 * h)"
proof -
  have bl: "bit l 63 \<longleftrightarrow> 2 ^ 63 \<le> l" using assms by (intro bit63_iff) auto
  have bh: "bit h 63 \<longleftrightarrow> 2 ^ 63 \<le> h" using assms by (intro bit63_iff) auto
  have same: "2 ^ 63 \<le> l \<longleftrightarrow> 2 ^ 63 \<le> h" using bl bh assms(4) by simp
  show l: "(2 * l) mod 2 ^ 64 = (if 2 ^ 63 \<le> l then 2 * l - 2 ^ 64 else 2 * l)"
  proof (cases "2 ^ 63 \<le> l")
    case True
    then have "(2 * l - 2 ^ 64) mod 2 ^ 64 = 2 * l - 2 ^ 64" using assms by (intro mod_pos_pos_trivial) auto
    then show ?thesis using True by (simp add: mod_simps)
  next
    case False
    then have "(2 * l) mod 2 ^ 64 = 2 * l" using assms by (intro mod_pos_pos_trivial) auto
    then show ?thesis using False by simp
  qed
  show h: "(2 * h) mod 2 ^ 64 = (if 2 ^ 63 \<le> l then 2 * h - 2 ^ 64 else 2 * h)"
  proof (cases "2 ^ 63 \<le> l")
    case True
    then have "(2 * h - 2 ^ 64) mod 2 ^ 64 = 2 * h - 2 ^ 64" using assms same by (intro mod_pos_pos_trivial) auto
    then show ?thesis using True by (simp add: mod_simps)
  next
    case False
    then have "(2 * h) mod 2 ^ 64 = 2 * h" using assms same by (intro mod_pos_pos_trivial) auto
    then show ?thesis using False by simp
  qed
  show "0 \<le> (2 * l) mod 2 ^ 64" by simp
  show "(2 * l) mod 2 ^ 64 \<le> (2 * h) mod 2 ^ 64 + 1" unfolding l h using assms by auto
  show "(2 * h) mod 2 ^ 64 + 1 < 2 ^ 64" unfolding h using assms same by auto
qed

lemma underflow_step_arith:
  assumes "0 \<le> l" "l < 2 ^ 63" "2 ^ 63 \<le> h" "h < 2 ^ 64" "bit (l::int) 62" "\<not> bit h 62"
  shows "push_bit 1 l XOR half_range = 2 * l - 2 ^ 63"
    "(push_bit 1 (h XOR half_range) OR half_range) OR 1 = 2 * h - 2 ^ 63 + 1"
    "2 ^ 62 \<le> l" "h < 3 * 2 ^ 62"
proof -
  show l62: "2 ^ 62 \<le> l" using assms bit62_low [of l] by simp
  show h62: "h < 3 * 2 ^ 62" using assms bit62_high [of h] by simp
  have "bit (2 * l) 63" using l62 assms by (subst bit63_iff) auto
  then show "push_bit 1 l XOR half_range = 2 * l - 2 ^ 63"
    unfolding consts_simps xor_exp_int push_bit_eq_mult by (simp add: mult.commute)
  have b: "bit h 63" using assms by (subst bit63_iff) auto
  have hx: "h XOR 2 ^ 63 = h - 2 ^ 63" unfolding xor_exp_int using b by simp
  have nb: "\<not> bit (2 * (h - 2 ^ 63)) 63" using h62 assms by (subst bit63_iff) auto
  have "2 * (h - 2 ^ 63) OR 2 ^ 63 = 2 * (h - 2 ^ 63) + 2 ^ 63"
  proof -
    have "2 * (h - 2 ^ 63) OR 2 ^ 63 = set_bit 63 (2 * (h - 2 ^ 63))"
      by (simp add: set_bit_eq_or)
    also have "\<dots> = 2 * (h - 2 ^ 63) + 2 ^ 63" unfolding set_bit_eq using nb by simp
    finally show ?thesis .
  qed
  moreover have "(2 * (h - 2 ^ 63) + 2 ^ 63) OR 1 = 2 * (h - 2 ^ 63) + 2 ^ 63 + 1"
    by (simp add: or_one_eq)
  ultimately show "(push_bit 1 (h XOR half_range) OR half_range) OR 1 = 2 * h - 2 ^ 63 + 1"
    unfolding consts_simps hx push_bit_eq_mult by (simp add: mult.commute)
qed

lemma shift_loop_partial:
  assumes "shift_loop shift c = Inr c'" "P c"
    and "\<And>c x. P c \<Longrightarrow> (low c XOR high c) AND half_range = 0 \<Longrightarrow> shift c = Inr x
            \<Longrightarrow> P (shift_next c x)"
  shows "P c' \<and> (low c' XOR high c') AND half_range \<noteq> 0"
  using assms
proof (induction shift c rule: shift_loop.induct)
  case (1 shift c)
  show ?case
  proof (cases "(low c XOR high c) AND half_range = 0")
    case True
    have unf: "shift_loop shift c =
        (case shift c of Inl e \<Rightarrow> Inl e | Inr x \<Rightarrow> shift_loop shift (shift_next c x))"
      by (subst shift_loop_unfold) (simp add: True)
    from "1.prems"(1) obtain x where x: "shift c = Inr x"
      and r: "shift_loop shift (shift_next c x) = Inr c'"
      unfolding unf by (cases "shift c") simp_all
    from "1.prems"(3) [OF "1.prems"(2) True x] have p: "P (shift_next c x)" .
    show ?thesis
      by (rule "1.IH" [OF True x r [unfolded shift_next_def] p [unfolded shift_next_def]
            "1.prems"(3)])
  next
    case False
    have "shift_loop shift c = Inr c"
      by (subst shift_loop_unfold) (simp add: False)
    with "1.prems"(1) have "c' = c" by simp
    with False "1.prems"(2) show ?thesis by simp
  qed
qed

lemma underflow_loop_partial:
  assumes "underflow_loop underflow c = Inr c'" "P c"
    and "\<And>c x. P c \<Longrightarrow> (low c AND NOT (high c)) AND quarter_range \<noteq> 0 \<Longrightarrow> underflow c = Inr x
            \<Longrightarrow> P (underflow_next c x)"
  shows "P c' \<and> (low c' AND NOT (high c')) AND quarter_range = 0"
  using assms
proof (induction underflow c rule: underflow_loop.induct)
  case (1 underflow c)
  show ?case
  proof (cases "(low c AND NOT (high c)) AND quarter_range \<noteq> 0")
    case True
    have unf: "underflow_loop underflow c =
        (case underflow c of Inl e \<Rightarrow> Inl e
         | Inr x \<Rightarrow> underflow_loop underflow (underflow_next c x))"
      by (subst underflow_loop_unfold) (simp add: True)
    from "1.prems"(1) obtain x where x: "underflow c = Inr x"
      and r: "underflow_loop underflow (underflow_next c x) = Inr c'"
      unfolding unf by (cases "underflow c") simp_all
    from "1.prems"(3) [OF "1.prems"(2) True x] have p: "P (underflow_next c x)" .
    show ?thesis
      by (rule "1.IH" [OF True x r [unfolded underflow_next_def] p [unfolded underflow_next_def]
            "1.prems"(3)])
  next
    case False
    have "underflow_loop underflow c = Inr c"
      using False by (subst underflow_loop_unfold) simp
    with "1.prems"(1) have "c' = c" by simp
    with False "1.prems"(2) show ?thesis by simp
  qed
qed

lemma in_word_shift_next:
  assumes "in_word c" "(low c XOR high c) AND half_range = 0"
  shows "in_word (shift_next c x)"
proof -
  from assms(1) have a: "0 \<le> low c" "low c \<le> high c" "high c < 2 ^ 64"
    by (simp_all add: in_word_def consts_simps)
  from assms(2) have b: "bit (low c) 63 = bit (high c) 63"
    by (simp add: top_bits_agree)
  have l: "low (shift_next c x) = (2 * low c) mod 2 ^ 64"
    unfolding shift_next_def shl_mask by simp
  have h: "high (shift_next c x) = (2 * high c) mod 2 ^ 64 + 1"
    unfolding shift_next_def shl_mask even_or1 by simp
  show ?thesis
    unfolding in_word_def l h consts_simps using shift_step_arith(1-3) [OF a b]
    by (intro conjI)
qed

lemma in_word_exit:
  assumes "in_word c" "(low c XOR high c) AND half_range \<noteq> 0"
  shows "straddles c"
proof -
  from assms(1) have a: "0 \<le> low c" "low c \<le> high c" "high c < 2 ^ 64"
    by (simp_all add: in_word_def consts_simps)
  then have a': "0 \<le> high c" "low c < 2 ^ 64" by linarith+
  have bl: "bit (low c) 63 \<longleftrightarrow> 2 ^ 63 \<le> low c" by (rule bit63_iff [OF a(1) a'(2)])
  have bh: "bit (high c) 63 \<longleftrightarrow> 2 ^ 63 \<le> high c" by (rule bit63_iff [OF a'(1) a(3)])
  from assms(2) have "bit (low c) 63 \<noteq> bit (high c) 63"
    by (simp add: top_bits_agree)
  then have "(2 ^ 63 \<le> low c) \<noteq> (2 ^ 63 \<le> high c)" unfolding bl bh .
  with a have "low c < 2 ^ 63 \<and> 2 ^ 63 \<le> high c" by linarith
  with a show ?thesis
    unfolding straddles_def consts_simps by simp
qed

lemma straddles_underflow_next:
  assumes "straddles c" "(low c AND NOT (high c)) AND quarter_range \<noteq> 0"
  shows "straddles (underflow_next c x)"
    and "low (underflow_next c x) = 2 * low c - 2 ^ 63"
    and "high (underflow_next c x) = 2 * high c - 2 ^ 63 + 1"
proof -
  from assms(1) have a: "0 \<le> low c" "low c < 2 ^ 63" "2 ^ 63 \<le> high c" "high c < 2 ^ 64"
    by (simp_all add: straddles_def consts_simps)
  from assms(2) have b: "bit (low c) 62" "\<not> bit (high c) 62"
    by (simp_all add: e3_cond)
  note u = underflow_step_arith [OF a b]
  show "low (underflow_next c x) = 2 * low c - 2 ^ 63"
    and "high (underflow_next c x) = 2 * high c - 2 ^ 63 + 1"
    unfolding underflow_next_def using u(1,2) by simp_all
  then show "straddles (underflow_next c x)"
    unfolding straddles_def using u(3,4) a by (simp add: consts_simps)
qed

lemma straddles_exit:
  assumes "straddles c" "(low c AND NOT (high c)) AND quarter_range = 0"
  shows "coder_inv c"
proof -
  from assms(1) have a: "0 \<le> low c" "low c < 2 ^ 63" "2 ^ 63 \<le> high c" "high c < 2 ^ 64"
    by (simp_all add: straddles_def consts_simps)
  from assms(2) have "\<not> (bit (low c) 62 \<and> \<not> bit (high c) 62)"
    using e3_cond [of "low c" "high c"] by simp
  then have "\<not> (2 ^ 62 \<le> low c \<and> high c < 3 * 2 ^ 62)"
    using bit62_low [OF a(1,2)] bit62_high [OF a(3,4)] by auto
  with assms(1) show ?thesis by (simp add: coder_inv_def consts_simps)
qed

definition wf_cdf :: "int list \<Rightarrow> bool" where
  "wf_cdf cum_freqs \<longleftrightarrow>
     cum_freqs \<noteq> [] \<and> sorted cum_freqs \<and> (\<forall>x \<in> set cum_freqs. 0 \<le> x) \<and> 0 < last cum_freqs"

definition sym_low :: "int list \<Rightarrow> nat \<Rightarrow> int" where
  "sym_low cum_freqs symbol = (if symbol > 0 then cum_freqs ! (symbol - 1) else 0)"

definition in_support :: "int list \<Rightarrow> nat \<Rightarrow> bool" where
  "in_support cum_freqs symbol \<longleftrightarrow>
     symbol < length cum_freqs \<and> sym_low cum_freqs symbol < cum_freqs ! symbol"

lemma narrow_arith:
  fixes l h a b total :: int
  assumes "l \<le> h" "0 < total" "0 \<le> a" "a < b" "b \<le> total" "total \<le> h - l + 1"
  shows "l \<le> l + a * (h - l + 1) div total"
    and "l + a * (h - l + 1) div total \<le> l + b * (h - l + 1) div total - 1"
    and "l + b * (h - l + 1) div total - 1 \<le> h"
proof -
  define r where "r = h - l + 1"
  have r: "0 < r" "total \<le> r" using assms by (simp_all add: r_def)
  have "0 \<le> a * r" using assms r by simp
  then have "0 \<le> a * r div total" using assms(2) by (simp add: pos_imp_zdiv_nonneg_iff)
  then show "l \<le> l + a * (h - l + 1) div total" by (simp add: r_def)
  have "a * r + total \<le> b * r"
  proof -
    have "a * r + total \<le> a * r + r" using r by simp
    also have "\<dots> = (a + 1) * r" by (simp add: algebra_simps)
    also have "\<dots> \<le> b * r" using assms(4) r by (intro mult_right_mono) auto
    finally show ?thesis .
  qed
  then have "(a * r + total) div total \<le> b * r div total"
    using assms(2) by (intro zdiv_mono1) auto
  moreover have "(a * r + total) div total = a * r div total + 1"
    using assms(2) by (intro div_add_self2) simp
  ultimately show "l + a * (h - l + 1) div total \<le> l + b * (h - l + 1) div total - 1"
    by (simp add: r_def)
  have "b * r \<le> r * total" using assms(5) r by (simp add: mult.commute mult_left_mono)
  then have "b * r div total \<le> r * total div total" using assms(2) by (intro zdiv_mono1) auto
  then have "b * r div total \<le> r" using assms(2) by simp
  then show "l + b * (h - l + 1) div total - 1 \<le> h" by (simp add: r_def)
qed

lemma coder_inv_range: "coder_inv c \<Longrightarrow> quarter_range + 2 \<le> high c - low c + 1"
  by (auto simp: coder_inv_def straddles_def consts_simps)

lemma wf_cdf_bounds:
  assumes "wf_cdf cum_freqs" "in_support cum_freqs symbol"
  shows "0 \<le> sym_low cum_freqs symbol" "cum_freqs ! symbol \<le> last cum_freqs"
proof -
  from assms have n: "symbol < length cum_freqs" "cum_freqs \<noteq> []" "sorted cum_freqs"
    by (simp_all add: wf_cdf_def in_support_def)
  show "0 \<le> sym_low cum_freqs symbol"
    using assms n by (auto simp: sym_low_def wf_cdf_def)
  have "cum_freqs ! symbol \<le> cum_freqs ! (length cum_freqs - 1)"
    using n by (intro sorted_nth_mono) auto
  then show "cum_freqs ! symbol \<le> last cum_freqs" using n by (simp add: last_conv_nth)
qed

definition narrow :: "int list \<Rightarrow> nat \<Rightarrow> 'x coder \<Rightarrow> 'x coder" where
  "narrow cum_freqs symbol c =
     c\<lparr>high := low c + cum_freqs ! symbol * (high c - low c + 1) div last cum_freqs - 1,
        low := low c + sym_low cum_freqs symbol * (high c - low c + 1) div last cum_freqs\<rparr>"

lemma update_unfold:
  assumes "cum_freqs \<noteq> []" "symbol < length cum_freqs" "last cum_freqs \<noteq> 0"
  shows "update shift underflow cum_freqs symbol c =
           (case shift_loop shift (narrow cum_freqs symbol c) of
              Inl e \<Rightarrow> Inl e
            | Inr c3 \<Rightarrow> underflow_loop underflow c3)"
  using assms by (simp add: update_def narrow_def sym_low_def Let_def)

lemma narrow_in_word:
  assumes "coder_inv c" "wf_cdf cum_freqs" "in_support cum_freqs symbol"
    "last cum_freqs \<le> quarter_range + 2"
  shows "in_word (narrow cum_freqs symbol c)"
    and "low c \<le> low (narrow cum_freqs symbol c)"
    and "high (narrow cum_freqs symbol c) \<le> high c"
proof -
  have lh: "low c \<le> high c" "0 \<le> low c" "high c < full_range"
    using assms(1) by (auto simp: coder_inv_def straddles_def)
  have t: "0 < last cum_freqs" using assms(2) by (simp add: wf_cdf_def)
  have ab: "sym_low cum_freqs symbol < cum_freqs ! symbol"
    using assms(3) by (simp add: in_support_def)
  have r: "last cum_freqs \<le> high c - low c + 1"
    using coder_inv_range [OF assms(1)] assms(4) by simp
  note n = narrow_arith [OF lh(1) t wf_cdf_bounds(1) [OF assms(2,3)] ab
      wf_cdf_bounds(2) [OF assms(2,3)] r]
  show "in_word (narrow cum_freqs symbol c)"
    unfolding in_word_def narrow_def using n lh by simp
  show "low c \<le> low (narrow cum_freqs symbol c)" unfolding narrow_def using n by simp
  show "high (narrow cum_freqs symbol c) \<le> high c" unfolding narrow_def using n by simp
qed

lemma update_coder_inv:
  assumes "update shift underflow cum_freqs symbol c = Inr c'"
    and "coder_inv c" "wf_cdf cum_freqs" "in_support cum_freqs symbol"
    and "last cum_freqs \<le> quarter_range + 2"
  shows "coder_inv c'"
proof -
  have pre: "cum_freqs \<noteq> []" "symbol < length cum_freqs" "last cum_freqs \<noteq> 0"
    using assms(3,4) by (auto simp: wf_cdf_def in_support_def)
  from assms(1) obtain c3 where
    s: "shift_loop shift (narrow cum_freqs symbol c) = Inr c3"
    and u: "underflow_loop underflow c3 = Inr c'"
    unfolding update_unfold [OF pre] by (auto split: sum.splits)
  have "in_word c3 \<and> (low c3 XOR high c3) AND half_range \<noteq> 0"
    by (rule shift_loop_partial [where P = in_word, OF s narrow_in_word(1) [OF assms(2-5)]])
       (rule in_word_shift_next)
  then have "straddles c3" by (simp add: in_word_exit)
  then have "straddles c' \<and> (low c' AND NOT (high c')) AND quarter_range = 0"
    by (rule underflow_loop_partial [where P = straddles, OF u])
       (rule straddles_underflow_next(1))
  then show ?thesis by (simp add: straddles_exit)
qed

lemma and_exp_int: "(a::int) AND 2 ^ n = (if bit a n then 2 ^ n else 0)"
  by (rule bit_eqI) (auto simp: bit_and_iff bit_exp_iff)

lemma mod_sub_twice: "(x - 2 * m) mod m = x mod (m::int)"
  using mod_mult_self1 [of "x - 2 * m" 2 m] by simp

lemma or_bit01: "even (a::int) \<Longrightarrow> b = 0 \<or> b = 1 \<Longrightarrow> a OR b = a + b"
  by (auto simp: or_one_eq)

lemma mask63: "drop_bit 1 state_mask = (mask 63 :: int)"
  unfolding state_mask_mask by (simp add: drop_bit_mask_eq)

lemma dec_shift_code:
  assumes "b = 0 \<or> b = 1"
  shows "(push_bit 1 (k::int) AND state_mask) OR b = (2 * k) mod 2 ^ 64 + b"
proof -
  have "even ((2 * k) mod 2 ^ 64)" by (simp add: dvd_mod)
  then show ?thesis unfolding shl_mask using assms by (rule or_bit01)
qed

lemma dec_underflow_code:
  assumes "2 ^ 62 \<le> k" "k < 3 * 2 ^ 62" "b = 0 \<or> b = 1"
  shows "((k AND half_range) OR (push_bit 1 k AND drop_bit 1 state_mask)) OR b
          = 2 * k - 2 ^ 63 + b"
proof -
  have k: "0 \<le> k" "k < 2 ^ 64" using assms by auto
  have b63: "bit k 63 \<longleftrightarrow> 2 ^ 63 \<le> k" by (rule bit63_iff [OF k])
  have m: "push_bit 1 k AND drop_bit 1 state_mask = (2 * k) mod 2 ^ 63"
    unfolding mask63 by (simp only: push_bit_eq_mult take_bit_eq_mod flip: take_bit_eq_mask)
      (simp add: mult.commute)
  have m2: "(2 * k) mod 2 ^ 63 = (if 2 ^ 63 \<le> k then 2 * k - 2 ^ 64 else 2 * k - 2 ^ 63)"
  proof (cases "2 ^ 63 \<le> k")
    case True
    then have "(2 * k - 2 * 2 ^ 63) mod 2 ^ 63 = 2 * k - 2 * 2 ^ 63"
      using assms by (intro mod_pos_pos_trivial) auto
    moreover have "(2 * k - 2 * 2 ^ 63) mod 2 ^ 63 = (2 * k) mod (2 ^ 63 :: int)"
      by (rule mod_sub_twice)
    ultimately show ?thesis using True by simp
  next
    case False
    then have "(2 * k - 2 ^ 63) mod 2 ^ 63 = 2 * k - 2 ^ 63"
      using assms by (intro mod_pos_pos_trivial) auto
    moreover have "(2 * k - 2 ^ 63) mod 2 ^ 63 = (2 * k) mod (2 ^ 63 :: int)"
      by simp
    ultimately show ?thesis using False by simp
  qed
  have ev: "even ((2 * k) mod 2 ^ 63)" by (simp add: dvd_mod)
  have a: "k AND half_range = (if 2 ^ 63 \<le> k then 2 ^ 63 else 0)"
    unfolding consts_simps and_exp_int b63 ..
  show ?thesis
  proof (cases "2 ^ 63 \<le> k")
    case True
    have "\<not> bit ((2 * k) mod 2 ^ 63) 63"
    proof -
      have "0 \<le> (2 * k) mod 2 ^ 63" "(2 * k) mod 2 ^ 63 < 2 ^ 64"
        using pos_mod_bound [of "2 ^ 63" "2 * k"] by simp_all
      then have "bit ((2 * k) mod 2 ^ 63) 63 \<longleftrightarrow> 2 ^ 63 \<le> (2 * k) mod 2 ^ 63"
        by (rule bit63_iff)
      then show ?thesis using pos_mod_bound [of "2 ^ 63" "2 * k"] by simp
    qed
    then have "2 ^ 63 OR (2 * k) mod 2 ^ 63 = (2 * k) mod 2 ^ 63 + 2 ^ 63"
      using set_bit_eq [of 63 "(2 * k) mod 2 ^ 63"] by (simp add: set_bit_eq_or or.commute)
    moreover have "even ((2 * k) mod 2 ^ 63 + 2 ^ 63)" using ev by simp
    ultimately have "(2 ^ 63 OR (2 * k) mod 2 ^ 63) OR b = (2 * k) mod 2 ^ 63 + 2 ^ 63 + b"
      using assms(3) by (simp only: or_bit01)
    then show ?thesis unfolding m a m2 using True by simp
  next
    case False
    have "(0 OR (2 * k) mod 2 ^ 63) OR b = (2 * k) mod 2 ^ 63 + b"
      using ev assms(3) by (simp only: or_bit01 or.left_neutral)
    then show ?thesis unfolding m a m2 using False by simp
  qed
qed

lemma read_code_bit_props:
  assumes "read_code_bit d = Inr (b, d')"
  shows "b = 0 \<or> b = 1" "input d' = input d" "code d' = code d"
    "decoder_state.bit_index d < 8 \<Longrightarrow> decoder_state.bit_index d' < 8"
proof -
  have "(k::int) AND 1 = 0 \<or> k AND 1 = 1" for k
    unfolding and_one_eq by presburger
  then show "b = 0 \<or> b = 1"
    using assms unfolding read_code_bit_def Let_def by (auto split: if_splits)
  show "input d' = input d" "code d' = code d"
    using assms unfolding read_code_bit_def Let_def by (auto split: if_splits)
  show "decoder_state.bit_index d' < 8" if "decoder_state.bit_index d < 8"
    using assms that unfolding read_code_bit_def Let_def by (auto split: if_splits)
qed

lemma read_code_bit_total:
  assumes "decoder_state.bit_index d < 8"
  shows "\<exists>b d'. read_code_bit d = Inr (b, d')"
  using assms unfolding read_code_bit_def Let_def by simp

definition dec_inv :: "decoder \<Rightarrow> bool" where
  "dec_inv c \<longleftrightarrow>
     in_word c \<and> low c \<le> code (sub c) \<and> code (sub c) \<le> high c
       \<and> decoder_state.bit_index (sub c) < 8"


lemma dec_shift_step:
  assumes "dec_inv c" "(low c XOR high c) AND half_range = 0"
  shows "\<exists>x. Decoder_shift c = Inr x \<and> dec_inv (shift_next c x)"
proof -
  from assms(1) have k8: "decoder_state.bit_index (sub c) < 8" by (simp add: dec_inv_def)
  from read_code_bit_total [OF k8]
  obtain b d where rd: "read_code_bit (sub c) = Inr (b, d)" by blast
  note rp = read_code_bit_props [OF rd]
  define x where "x = d\<lparr>code := (push_bit 1 (code (sub c)) AND state_mask) OR b\<rparr>"
  have sx: "Decoder_shift c = Inr x" by (simp add: Decoder_shift_def rd x_def)
  have x8: "decoder_state.bit_index x < 8" using rp(4) [OF k8] by (simp add: x_def)
  from assms(1) have a: "0 \<le> low c" "low c \<le> high c" "high c < 2 ^ 64"
    and k: "low c \<le> code (sub c)" "code (sub c) \<le> high c"
    by (simp_all add: dec_inv_def in_word_def consts_simps)
  from assms(2) have bb: "bit (low c) 63 = bit (high c) 63" by (simp add: top_bits_agree)
  have k64: "code (sub c) < 2 ^ 64" "0 \<le> high c" "low c < 2 ^ 64" "0 \<le> code (sub c)"
    using a k by linarith+
  have bl: "bit (low c) 63 \<longleftrightarrow> 2 ^ 63 \<le> low c" by (rule bit63_iff [OF a(1) k64(3)])
  have bh: "bit (high c) 63 \<longleftrightarrow> 2 ^ 63 \<le> high c" by (rule bit63_iff [OF k64(2) a(3)])
  have bk: "bit (code (sub c)) 63 \<longleftrightarrow> 2 ^ 63 \<le> code (sub c)" by (rule bit63_iff [OF k64(4,1)])
  have same: "bit (low c) 63 = bit (code (sub c)) 63"
    using bb k unfolding bl bh bk by linarith
  note s1 = shift_step_arith [OF a(1) k(1) k64(1) same]
  note s2 = shift_step_arith [OF a bb]
  have cx: "code x = (2 * code (sub c)) mod 2 ^ 64 + b"
    unfolding x_def using dec_shift_code [OF rp(1)] by simp
  have l: "low (shift_next c x) = (2 * low c) mod 2 ^ 64"
    unfolding shift_next_def shl_mask by simp
  have h: "high (shift_next c x) = (2 * high c) mod 2 ^ 64 + 1"
    unfolding shift_next_def shl_mask even_or1 by simp
  have sb: "sub (shift_next c x) = x" by (simp add: shift_next_def)
  have "in_word (shift_next c x)" using assms by (simp add: dec_inv_def in_word_shift_next)
  moreover have "low (shift_next c x) \<le> code x" "code x \<le> high (shift_next c x)"
    unfolding l h cx s1(4,5) s2(5) using rp(1) k by auto
  ultimately have "dec_inv (shift_next c x)" using x8 by (simp add: dec_inv_def sb)
  with sx show ?thesis by blast
qed

lemma dec_underflow_step:
  assumes "dec_inv c \<and> straddles c" "(low c AND NOT (high c)) AND quarter_range \<noteq> 0"
  shows "\<exists>x. Decoder_underflow c = Inr x
           \<and> (dec_inv (underflow_next c x) \<and> straddles (underflow_next c x))"
proof -
  from assms(1) have k8: "decoder_state.bit_index (sub c) < 8" by (simp add: dec_inv_def)
  from read_code_bit_total [OF k8]
  obtain b d where rd: "read_code_bit (sub c) = Inr (b, d)" by blast
  note rp = read_code_bit_props [OF rd]
  define x where "x = d\<lparr>code := ((code (sub c) AND half_range)
      OR (push_bit 1 (code (sub c)) AND drop_bit 1 state_mask)) OR b\<rparr>"
  have sx: "Decoder_underflow c = Inr x" by (simp add: Decoder_underflow_def rd x_def)
  have x8: "decoder_state.bit_index x < 8" using rp(4) [OF k8] by (simp add: x_def)
  from assms(1) have st: "straddles c" and k: "low c \<le> code (sub c)" "code (sub c) \<le> high c"
    by (simp_all add: dec_inv_def)
  from st have a: "0 \<le> low c" "low c < 2 ^ 63" "2 ^ 63 \<le> high c" "high c < 2 ^ 64"
    by (simp_all add: straddles_def consts_simps)
  from assms(2) have b: "bit (low c) 62" "\<not> bit (high c) 62" by (simp_all add: e3_cond)
  note u = underflow_step_arith [OF a b]
  note su = straddles_underflow_next [OF st assms(2), of x]
  have kk: "2 ^ 62 \<le> code (sub c)" "code (sub c) < 3 * 2 ^ 62" using u(3,4) k by linarith+
  have cx: "code x = 2 * code (sub c) - 2 ^ 63 + b"
    unfolding x_def using dec_underflow_code [OF kk rp(1)] by simp
  have sb: "sub (underflow_next c x) = x" by (simp add: underflow_next_def)
  have "in_word (underflow_next c x)" using su(1) by (auto simp: straddles_def in_word_def consts_simps)
  moreover have "low (underflow_next c x) \<le> code x" "code x \<le> high (underflow_next c x)"
    unfolding su(2,3) cx using rp(1) k by auto
  ultimately have "dec_inv (underflow_next c x)" using x8 by (simp add: dec_inv_def sb)
  with sx su(1) show ?thesis by blast
qed

lemma bisect_right_correct:
  assumes "lo \<le> hi" "hi \<le> length a"
    and "\<forall>j<lo. a ! j \<le> v" "\<forall>j. hi \<le> j \<and> j < length a \<longrightarrow> v < a ! j" "sorted a"
  shows "bisect_right a v lo hi \<le> length a
    \<and> (\<forall>j<bisect_right a v lo hi. a ! j \<le> v)
    \<and> (\<forall>j. bisect_right a v lo hi \<le> j \<and> j < length a \<longrightarrow> v < a ! j)"
  using assms
proof (induction a v lo hi rule: bisect_right.induct)
  case (1 a v lo hi)
  show ?case
  proof (cases "lo < hi")
    case False
    then have e: "bisect_right a v lo hi = lo" by (subst bisect_right.simps) simp
    from False "1.prems"(1) have "lo = hi" by simp
    then show ?thesis unfolding e using "1.prems" by simp
  next
    case True
    define mid where "mid = lo + (hi - lo) div 2"
    have m: "lo \<le> mid" "mid < hi" using True by (simp_all add: mid_def)
    show ?thesis
    proof (cases "a ! mid \<le> v")
      case le: True
      have e: "bisect_right a v lo hi = bisect_right a v (mid + 1) hi"
        using True le by (subst bisect_right.simps) (simp add: mid_def Let_def)
      have "\<forall>j<mid + 1. a ! j \<le> v"
      proof (intro allI impI)
        fix j assume "j < mid + 1"
        then have "j \<le> mid" by simp
        moreover have "mid < length a" using m "1.prems"(2) by simp
        ultimately have "a ! j \<le> a ! mid" using "1.prems"(5) by (simp add: sorted_nth_mono)
        with le show "a ! j \<le> v" by simp
      qed
      with "1.IH"(1) [OF True mid_def le _ "1.prems"(2) _ "1.prems"(4,5)] m
      show ?thesis unfolding e by simp
    next
      case gt: False
      have e: "bisect_right a v lo hi = bisect_right a v lo mid"
        using True gt by (subst bisect_right.simps) (simp add: mid_def Let_def)
      have "\<forall>j. mid \<le> j \<and> j < length a \<longrightarrow> v < a ! j"
      proof (intro allI impI)
        fix j assume j: "mid \<le> j \<and> j < length a"
        then have "a ! mid \<le> a ! j" using "1.prems"(5) by (simp add: sorted_nth_mono)
        with gt show "v < a ! j" by simp
      qed
      moreover have "mid \<le> length a" using m "1.prems"(2) by simp
      ultimately show ?thesis
        using "1.IH"(2) [OF True mid_def gt m(1) _ "1.prems"(3) _ "1.prems"(5)]
        unfolding e by simp
    qed
  qed
qed

lemma bisect_right_sorted:
  assumes "sorted a"
  shows "bisect_right a v 0 (length a) \<le> length a"
    and "\<And>j. j < bisect_right a v 0 (length a) \<Longrightarrow> a ! j \<le> v"
    and "\<And>j. bisect_right a v 0 (length a) \<le> j \<Longrightarrow> j < length a \<Longrightarrow> v < a ! j"
  using bisect_right_correct [of 0 "length a" a v] assms
  by auto

lemma bit_length_le:
  assumes "n < 2 ^ k"
  shows "bit_length n \<le> k"
  using assms
proof (induction k arbitrary: n)
  case 0
  then show ?case by (subst bit_length.simps) simp
next
  case (Suc k)
  show ?case
  proof (cases "n \<le> 0")
    case True
    then show ?thesis by (subst bit_length.simps) simp
  next
    case False
    have "n div 2 < 2 ^ k" using Suc.prems by simp
    from Suc.IH [OF this] False show ?thesis by (subst bit_length.simps) simp
  qed
qed

lemma float64_of_int_exact:
  assumes "\<bar>n\<bar> \<le> 2 ^ 53"
  shows "float64_of_int n = n"
proof (cases "\<bar>n\<bar> < 2 ^ 53")
  case True
  from bit_length_le [OF this] show ?thesis by (simp add: float64_of_int_def Let_def)
next
  case False
  with assms have "n = 2 ^ 53 \<or> n = - (2 ^ 53)" by linarith
  moreover have "float64_of_int (2 ^ 53) = 2 ^ 53" by code_simp
  moreover have "float64_of_int (- (2 ^ 53)) = - (2 ^ 53)" by code_simp
  ultimately show ?thesis by auto
qed

lemma promote_all_int64:
  assumes "\<forall>t \<in> set ts. t = Int64"
  shows "foldl promote_types Int64 ts = Int64"
  using assms by (induction ts) simp_all

definition decode_value :: "decoder \<Rightarrow> int list \<Rightarrow> int" where
  "decode_value c cum_freqs =
     ((code (sub c) - low c + 1) * last cum_freqs - 1) div (high c - low c + 1)"

lemma int_div_bounds:
  fixes a b :: int
  assumes "0 < b"
  shows "(a div b) * b \<le> a" "a < (a div b + 1) * b"
proof -
  have e: "a = (a div b) * b + a mod b" by simp
  have m: "0 \<le> a mod b" "a mod b < b" using assms by simp_all
  show "(a div b) * b \<le> a" using e m(1) by linarith
  have "(a div b + 1) * b = (a div b) * b + b" by (simp add: algebra_simps)
  then show "a < (a div b + 1) * b" using e m(2) by linarith
qed

lemma int_div_less:
  fixes a b c :: int
  assumes "0 < b" "a < c * b"
  shows "a div b < c"
proof (rule ccontr)
  assume "\<not> a div b < c"
  then have "c * b \<le> (a div b) * b" using assms(1) by (intro mult_right_mono) auto
  also have "\<dots> \<le> a" by (rule int_div_bounds(1) [OF assms(1)])
  finally show False using assms(2) by simp
qed

lemma decode_arith:
  fixes r total a b off v :: int
  assumes "0 < r" "0 < total" "0 \<le> off" "off < r"
    and v: "v = ((off + 1) * total - 1) div r"
  shows "0 \<le> v" "v < total"
    and "a \<le> v \<Longrightarrow> a * r div total \<le> off"
    and "v < b \<Longrightarrow> off \<le> b * r div total - 1"
proof -
  let ?n = "(off + 1) * total - 1"
  have n0: "0 \<le> ?n"
  proof -
    have "1 * 1 \<le> (off + 1) * total" using assms by (intro mult_mono) auto
    then show ?thesis by simp
  qed
  show "0 \<le> v" unfolding v using n0 assms(1) by (simp add: pos_imp_zdiv_nonneg_iff)
  have "?n < r * total"
  proof -
    have "(off + 1) * total \<le> r * total" using assms by (intro mult_right_mono) auto
    then show ?thesis by simp
  qed
  then show "v < total" unfolding v using assms(1) by (intro int_div_less) (simp_all add: mult.commute)
  have vr: "v * r \<le> ?n" unfolding v by (rule int_div_bounds(1) [OF assms(1)])
  have nr: "?n < (v + 1) * r" unfolding v by (rule int_div_bounds(2) [OF assms(1)])
  show "a * r div total \<le> off" if "a \<le> v"
  proof -
    have "a * r \<le> v * r" using that assms(1) by (intro mult_right_mono) auto
    with vr have "a * r < (off + 1) * total" by simp
    then have "a * r div total < off + 1" using assms(2)
      by (intro int_div_less)
    then show ?thesis by simp
  qed
  show "off \<le> b * r div total - 1" if "v < b"
  proof -
    have "(v + 1) * r \<le> b * r" using that assms(1) by (intro mult_right_mono) auto
    with nr have "(off + 1) * total \<le> b * r" by simp
    then have "(off + 1) * total div total \<le> b * r div total"
      using assms(2) by (intro zdiv_mono1) auto
    then show ?thesis using assms(2) by simp
  qed
qed


definition sbit :: "byte list \<Rightarrow> nat \<Rightarrow> bool" where
  "sbit data n \<longleftrightarrow> n div 8 < length data \<and> bit (data ! (n div 8)) (7 - n mod 8)"

fun window :: "(nat \<Rightarrow> bool) \<Rightarrow> nat \<Rightarrow> nat \<Rightarrow> int" where
  "window \<sigma> p 0 = 0"
| "window \<sigma> p (Suc n) = 2 * window \<sigma> p n + of_bool (\<sigma> (p + n))"

definition at_pos :: "decoder_state \<Rightarrow> nat \<Rightarrow> bool" where
  "at_pos d p \<longleftrightarrow>
     decoder_state.bit_index d < 8 \<and>
     (if p < 8 * length (input d) then 8 * byte_index d + decoder_state.bit_index d = p
      else length (input d) \<le> byte_index d)"

lemma window_bounds: "0 \<le> window \<sigma> p n" "window \<sigma> p n < 2 ^ n"
  by (induction n) (auto simp: of_bool_def)

lemma window_front: "window \<sigma> p (Suc n) = of_bool (\<sigma> p) * 2 ^ n + window \<sigma> (Suc p) n"
  by (induction n) (simp_all add: algebra_simps)

lemma bit_select: "drop_bit k (uint (w::byte)) AND 1 = of_bool (bit w k)"
proof -
  have "drop_bit k (uint w) AND 1 = of_bool (odd (drop_bit k (uint w)))"
    by (simp add: and_one_eq mod_2_eq_odd)
  also have "\<dots> = of_bool (bit (uint w) k)" by (simp add: bit_iff_odd_drop_bit)
  also have "\<dots> = of_bool (bit w k)" by (auto simp: bit_uint_iff dest: bit_imp_le_length)
  finally show ?thesis .
qed

lemma read_code_bit_at:
  assumes "at_pos d p" "read_code_bit d = Inr (b, d')"
  shows "b = of_bool (sbit (input d) p)" "at_pos d' (Suc p)"
proof -
  have k8: "decoder_state.bit_index d < 8" using assms(1) by (simp add: at_pos_def)
  show "b = of_bool (sbit (input d) p)"
  proof (cases "length (input d) \<le> byte_index d")
    case True
    then have "\<not> p < 8 * length (input d)" using assms(1) by (auto simp: at_pos_def)
    then have "\<not> sbit (input d) p" by (auto simp: sbit_def)
    moreover have "b = 0" using True assms(2) by (simp add: read_code_bit_def)
    ultimately show ?thesis by simp
  next
    case False
    then have p: "8 * byte_index d + decoder_state.bit_index d = p"
      using assms(1) by (auto simp: at_pos_def split: if_splits)
    then have dm: "p div 8 = byte_index d" "p mod 8 = decoder_state.bit_index d"
      using k8 by auto
    have "b = drop_bit (7 - decoder_state.bit_index d) (uint (input d ! byte_index d)) AND 1"
      using False k8 assms(2) by (simp add: read_code_bit_def Let_def)
    then show ?thesis using False by (simp add: bit_select sbit_def dm)
  qed
  show "at_pos d' (Suc p)"
  proof (cases "length (input d) \<le> byte_index d")
    case True
    then have "d' = d" using assms(2) by (simp add: read_code_bit_def)
    then show ?thesis using True assms(1) by (auto simp: at_pos_def split: if_splits)
  next
    case False
    then have p: "8 * byte_index d + decoder_state.bit_index d = p"
      using assms(1) by (auto simp: at_pos_def split: if_splits)
    show ?thesis
    proof (cases "decoder_state.bit_index d = 7")
      case True
      then have "d' = d\<lparr>decoder_state.bit_index := 0, byte_index := byte_index d + 1\<rparr>"
        using False k8 assms(2) by (simp add: read_code_bit_def Let_def)
      then show ?thesis using p True False by (auto simp: at_pos_def)
    next
      case ns: False
      then have "d' = d\<lparr>decoder_state.bit_index := decoder_state.bit_index d + 1\<rparr>"
        using False k8 assms(2) by (simp add: read_code_bit_def Let_def)
      then show ?thesis using p ns k8 False by (auto simp: at_pos_def)
    qed
  qed
qed

lemma read_code_bits_window:
  assumes "at_pos d p"
  shows "\<exists>v d'. read_code_bits (rev [0..<n]) acc d = Inr (v, d')
    \<and> v = acc + window (sbit (input d)) p n \<and> at_pos d' (p + n) \<and> input d' = input d"
  using assms
proof (induction n arbitrary: d p acc)
  case 0
  then show ?case by simp
next
  case (Suc n)
  have k8: "decoder_state.bit_index d < 8" using Suc.prems by (simp add: at_pos_def)
  from read_code_bit_total [OF k8]
  obtain b d1 where rd: "read_code_bit d = Inr (b, d1)" by blast
  note r1 = read_code_bit_at [OF Suc.prems(1) rd] read_code_bit_props(2) [OF rd]
  from Suc.IH [OF r1(2), of "acc + push_bit n b"] r1(3)
  obtain v d' where r: "read_code_bits (rev [0..<n]) (acc + push_bit n b) d1 = Inr (v, d')"
    and v: "v = acc + push_bit n b + window (sbit (input d)) (Suc p) n"
    and rest: "at_pos d' (Suc p + n)" "input d' = input d"
    by auto
  have e: "read_code_bits (rev [0..<Suc n]) acc d = Inr (v, d')"
    using r by (simp add: rd)
  from v have "v = acc + (of_bool (sbit (input d) p) * 2 ^ n + window (sbit (input d)) (Suc p) n)"
    unfolding r1(1) by (simp add: push_bit_eq_mult)
  then have "v = acc + window (sbit (input d)) p (Suc n)"
    by (simp only: window_front)
  with rest e show ?case by simp
qed

lemma Decoder_init_total: "\<exists>c. Decoder_init data = Inr c"
proof -
  define d0 where "d0 = \<lparr>input = data, byte_index = 0, bit_index = 0, code = 0\<rparr>"
  have a0: "at_pos d0 0" by (simp add: at_pos_def d0_def)
  from read_code_bits_window [OF a0, of 64 0]
  obtain v d1 where r: "read_code_bits (rev [0..<64]) 0 d0 = Inr (v, d1)" by blast
  show ?thesis
    unfolding Decoder_init_def NUM_STATE_BITS_def Let_def d0_def [symmetric] r by simp
qed

lemma Decoder_init_props:
  assumes "Decoder_init data = Inr c"
  shows "low c = 0" "high c = state_mask"
    "code (sub c) = window (sbit data) 0 64"
    "at_pos (sub c) 64" "input (sub c) = data"
proof -
  define d0 where "d0 = \<lparr>input = data, byte_index = 0, bit_index = 0, code = 0\<rparr>"
  have a0: "at_pos d0 0" by (simp add: at_pos_def d0_def)
  from read_code_bits_window [OF a0, of 64 0]
  obtain v d1 where r: "read_code_bits (rev [0..<64]) 0 d0 = Inr (v, d1)"
    and v: "v = window (sbit data) 0 64" and ap: "at_pos d1 64" and inp: "input d1 = data"
    by (auto simp: d0_def)
  have "Decoder_init data = Inr (coder_init (d1\<lparr>code := v\<rparr>))"
    unfolding Decoder_init_def NUM_STATE_BITS_def Let_def d0_def [symmetric] r by simp
  with assms have di: "c = coder_init (d1\<lparr>code := v\<rparr>)" by simp
  show "low c = 0" "high c = state_mask"
    by (simp_all add: di coder_init_def)
  show "code (sub c) = window (sbit data) 0 64"
    by (simp add: di coder_init_def v)
  show "at_pos (sub c) 64" using ap by (simp add: di coder_init_def at_pos_def)
  show "input (sub c) = data" by (simp add: di coder_init_def inp)
qed

lemma Decoder_init_inv:
  assumes "Decoder_init data = Inr c"
  shows "dec_inv c"
  unfolding dec_inv_def in_word_def Decoder_init_props [OF assms] consts_simps
  using window_bounds [of "sbit data" 0 64] Decoder_init_props(4) [OF assms]
  by (simp add: at_pos_def)

fun compared_exactly :: "array_like \<Rightarrow> bool" where
  "compared_exactly (PyList xs) \<longleftrightarrow> last xs < 2 ^ 63"
| "compared_exactly (FloatArray xs) \<longleftrightarrow> last xs \<le> 2 ^ 53"

lemma searchsorted_exact:
  assumes "wf_cdf (elems cf)" "compared_exactly cf" "0 \<le> v" "v < last (elems cf)"
  shows "searchsorted cf v = bisect_right (elems cf) v 0 (length (elems cf))"
proof -
  from assms(1) have w: "elems cf \<noteq> []" "sorted (elems cf)" "\<forall>x\<in>set (elems cf). 0 \<le> x"
    by (simp_all add: wf_cdf_def)
  have le: "x \<le> last (elems cf)" if "x \<in> set (elems cf)" for x
  proof -
    from that obtain i where i: "i < length (elems cf)" "x = elems cf ! i"
      by (auto simp: in_set_conv_nth)
    then have "elems cf ! i \<le> elems cf ! (length (elems cf) - 1)"
      using w(2) by (intro sorted_nth_mono) auto
    then show ?thesis using i w(1) by (simp add: last_conv_nth)
  qed
  show ?thesis
  proof (cases cf)
    case (PyList xs)
    with assms(2) have b: "last xs < 2 ^ 63" by simp
    have el: "0 \<le> x \<and> x < 2 ^ 63" if "x \<in> set xs" for x
      using le [of x] w(3) that b PyList by auto
    have dt: "int_dtype x = Int64" if "x \<in> set xs" for x
      using el [OF that] by (simp add: int_dtype_def)
    from w(1) PyList obtain y ys where xs: "xs = y # ys" by (cases xs) auto
    have "asarray_dtype cf = foldl promote_types (int_dtype y) (map int_dtype ys)"
      by (simp add: PyList xs)
    also have "\<dots> = foldl promote_types Int64 (map int_dtype ys)" using dt [of y] by (simp add: xs)
    also have "\<dots> = Int64" by (rule promote_all_int64) (use dt in \<open>auto simp: xs\<close>)
    finally have a: "asarray_dtype cf = Int64" .
    have "v < 2 ^ 63" using assms(4) b PyList by simp
    then have "int_dtype v = Int64" using assms(3) by (simp add: int_dtype_def)
    moreover have "cast Int64 v = v" by simp
    moreover have "map (cast Int64) (elems cf) = elems cf" by (simp add: map_idI)
    ultimately show ?thesis using a by (simp add: searchsorted_def Let_def)
  next
    case (FloatArray xs)
    with assms(2) have b: "last xs \<le> 2 ^ 53" by simp
    have "float64_of_int x = x" if "x \<in> set xs" for x
      using le [of x] w(3) that b FloatArray by (intro float64_of_int_exact) auto
    then have m: "map (cast Float64) xs = xs" by (simp add: map_idI)
    have v53: "v < 2 ^ 53" using assms(4) b FloatArray by simp
    then have "int_dtype v = Int64" using assms(3) by (simp add: int_dtype_def)
    moreover have "float64_of_int v = v" using assms(3) v53 by (intro float64_of_int_exact) simp
    ultimately show ?thesis by (simp add: searchsorted_def Let_def FloatArray m)
  qed
qed

lemma decode_symbol_correct:
  assumes "dec_inv c" "wf_cdf (elems cf)" "compared_exactly cf"
  defines "v \<equiv> decode_value c (elems cf)"
  defines "s \<equiv> bisect_right (elems cf) v 0 (length (elems cf))"
  shows "\<exists>c'. decode_symbol c cf = Inr (s, c') \<and> dec_inv c' \<and> coder_inv c'"
    and "s < length (elems cf)" "v < elems cf ! s" "\<forall>j. j < s \<longrightarrow> elems cf ! j \<le> v"
    and "0 \<le> v" "v < last (elems cf)"
proof -
  let ?cs = "elems cf"
  from assms(1) have a: "0 \<le> low c" "low c \<le> high c" "high c < 2 ^ 64"
    and k: "low c \<le> code (sub c)" "code (sub c) \<le> high c"
    and k8: "decoder_state.bit_index (sub c) < 8"
    by (simp_all add: dec_inv_def in_word_def consts_simps)
  from assms(2) have w: "?cs \<noteq> []" "sorted ?cs" "0 < last ?cs"
    "\<forall>x\<in>set ?cs. 0 \<le> x"
    by (simp_all add: wf_cdf_def)
  define r where "r = high c - low c + 1"
  define off where "off = code (sub c) - low c"
  define total where "total = last ?cs"
  have r0: "0 < r" and o0: "0 \<le> off" and or: "off < r" and t0: "0 < total"
    using a k w by (simp_all add: r_def off_def total_def)
  have vdef: "v = ((off + 1) * total - 1) div r"
    by (simp add: v_def decode_value_def off_def r_def total_def)
  note da = decode_arith [OF r0 t0 o0 or vdef]
  show v0: "0 \<le> v" and vt: "v < last ?cs" using da(1,2) by (simp_all add: total_def)
  note ss = bisect_right_sorted [OF w(2), where v = v, folded s_def]
  show sl: "s < length ?cs"
  proof (rule ccontr)
    assume "\<not> s < length ?cs"
    then have "length ?cs - 1 < s" using w(1) by (cases ?cs) auto
    from ss(2) [OF this] have "last ?cs \<le> v" using w(1) by (simp add: last_conv_nth)
    with vt show False by simp
  qed
  show vs: "v < ?cs ! s" using ss(3) [of s] sl by simp
  show below: "\<forall>j. j < s \<longrightarrow> ?cs ! j \<le> v" using ss(2) by blast
  have lo: "sym_low ?cs s \<le> v" "0 \<le> sym_low ?cs s"
    using below v0 w(4) sl by (auto simp: sym_low_def)
  have hi: "?cs ! s \<le> total"
  proof -
    have "?cs ! s \<le> ?cs ! (length ?cs - 1)"
      using sl w(2) by (intro sorted_nth_mono) auto
    then show ?thesis using w(1) by (simp add: total_def last_conv_nth)
  qed
  have n1: "sym_low ?cs s * r div total \<le> off" by (rule da(3) [OF lo(1)])
  have n2: "off \<le> ?cs ! s * r div total - 1" by (rule da(4) [OF vs])
  have n0: "0 \<le> sym_low ?cs s * r div total"
    using lo(2) r0 t0 by (simp add: pos_imp_zdiv_nonneg_iff)
  have n3: "?cs ! s * r div total \<le> r"
  proof -
    have "?cs ! s * r \<le> r * total" using hi r0 by (simp add: mult.commute mult_left_mono)
    then have "?cs ! s * r div total \<le> r * total div total"
      using t0 by (intro zdiv_mono1) auto
    then show ?thesis using t0 by simp
  qed
  let ?c2 = "narrow ?cs s c"
  have l2: "low ?c2 = low c + sym_low ?cs s * r div total"
    and h2: "high ?c2 = low c + ?cs ! s * r div total - 1"
    and s2: "sub ?c2 = sub c"
    by (simp_all add: narrow_def r_def total_def)
  have d2: "dec_inv ?c2"
    unfolding dec_inv_def in_word_def l2 h2 s2 consts_simps
    using n0 n1 n2 n3 a k k8 by (simp add: off_def r_def)
  have pre: "?cs \<noteq> []" "s < length ?cs" "last ?cs \<noteq> 0"
    using w sl by auto
  from shift_loop_rule [where P = dec_inv and shift = Decoder_shift, OF d2 dec_shift_step]
  obtain c3 where c3: "shift_loop Decoder_shift ?c2 = Inr c3" "dec_inv c3"
    "(low c3 XOR high c3) AND half_range \<noteq> 0"
    by blast
  have st3: "dec_inv c3 \<and> straddles c3" using c3(2,3) by (simp add: dec_inv_def in_word_exit)
  from underflow_loop_rule [where P = "\<lambda>c. dec_inv c \<and> straddles c"
      and underflow = Decoder_underflow, OF st3 dec_underflow_step]
  obtain c' where c': "underflow_loop Decoder_underflow c3 = Inr c'" "dec_inv c'" "straddles c'"
    "(low c' AND NOT (high c')) AND quarter_range = 0"
    by blast
  have up: "update Decoder_shift Decoder_underflow ?cs s c = Inr c'"
    unfolding update_unfold [OF pre] c3(1) using c'(1) by simp
  have rne: "high c - low c + 1 \<noteq> 0" using r0 by (simp add: r_def)
  have se: "searchsorted cf v = s"
    unfolding s_def by (rule searchsorted_exact [OF assms(2,3) v0 vt])
  have "decode_symbol c cf = Inr (s, c')"
    unfolding decode_symbol_def Let_def using w(1) rne up se
    by (simp add: v_def decode_value_def)
  moreover have "coder_inv c'" using c'(3,4) by (rule straddles_exit)
  ultimately show "\<exists>c'. decode_symbol c cf = Inr (s, c') \<and> dec_inv c' \<and> coder_inv c'"
    using c'(2) by blast
qed

fun update_all ::
  "('x coder \<Rightarrow> error + 'x) \<Rightarrow> ('x coder \<Rightarrow> error + 'x) \<Rightarrow> (int list \<times> nat) list \<Rightarrow> 'x coder
     \<Rightarrow> error + 'x coder" where
  "update_all shift underflow [] c = Inr c"
| "update_all shift underflow ((cum_freqs, symbol) # ps) c =
     (case update shift underflow cum_freqs symbol c of
        Inl e \<Rightarrow> Inl e
      | Inr c' \<Rightarrow> update_all shift underflow ps c')"

definition codeable :: "int list \<times> nat \<Rightarrow> bool" where
  "codeable p \<longleftrightarrow>
     wf_cdf (fst p) \<and> in_support (fst p) (snd p) \<and> last (fst p) \<le> quarter_range + 2"

definition strict_cdf :: "int list \<Rightarrow> bool" where
  "strict_cdf cum_freqs \<longleftrightarrow>
     cum_freqs \<noteq> [] \<and> sorted_wrt (<) cum_freqs \<and> (\<forall>x \<in> set cum_freqs. 0 < x)"

definition exact_strict_cdf :: "array_like \<Rightarrow> bool" where
  "exact_strict_cdf cum_freqs \<longleftrightarrow> strict_cdf (elems cum_freqs) \<and> compared_exactly cum_freqs"

lemma coder_init_inv: "coder_inv (coder_init x)"
  by (simp add: coder_inv_def straddles_def coder_init_def consts_simps)

lemma update_all_coder_inv:
  assumes "update_all shift underflow ps c = Inr c'" "coder_inv c" "\<forall>p \<in> set ps. codeable p"
  shows "coder_inv c'"
  using assms
proof (induction ps arbitrary: c)
  case Nil
  then show ?case by simp
next
  case (Cons p ps)
  obtain cf s where p: "p = (cf, s)" by (cases p)
  from Cons.prems(1) obtain c1 where u: "update shift underflow cf s c = Inr c1"
    and r: "update_all shift underflow ps c1 = Inr c'"
    by (auto simp: p split: sum.splits)
  from Cons.prems(3) have "wf_cdf cf" "in_support cf s" "last cf \<le> quarter_range + 2"
    by (simp_all add: p codeable_def)
  from update_coder_inv [OF u Cons.prems(2) this] have "coder_inv c1" .
  from Cons.IH [OF r this] Cons.prems(3) show ?case by simp
qed

lemma coder_inv_conseq:
  assumes "coder_inv c"
  shows "low c \<le> high c" "(low c XOR high c) AND half_range \<noteq> 0"
    "(low c AND NOT (high c)) AND quarter_range = 0"
proof -
  from assms have a: "0 \<le> low c" "low c < 2 ^ 63" "2 ^ 63 \<le> high c" "high c < 2 ^ 64"
    and n: "\<not> (2 ^ 62 \<le> low c \<and> high c < 3 * 2 ^ 62)"
    by (simp_all add: coder_inv_def straddles_def consts_simps)
  show "low c \<le> high c" using a by linarith
  have l64: "low c < 2 ^ 64" and h0: "0 \<le> high c" using a by linarith+
  have "\<not> bit (low c) 63" using bit63_iff [OF a(1) l64] a(2) by simp
  moreover have "bit (high c) 63" using bit63_iff [OF h0 a(4)] a(3) by simp
  ultimately show "(low c XOR high c) AND half_range \<noteq> 0" by (simp add: top_bits_agree)
  have "\<not> (bit (low c) 62 \<and> \<not> bit (high c) 62)"
    using bit62_low [OF a(1,2)] bit62_high [OF a(3,4)] n by auto
  then show "(low c AND NOT (high c)) AND quarter_range = 0"
    using e3_cond [of "low c" "high c"] by blast
qed

lemma decoder_update_total:
  assumes "cum_freqs \<noteq> []" "s < length cum_freqs" "last cum_freqs \<noteq> 0"
    and "decoder_state.bit_index (sub c) < 8"
  shows "\<exists>c'. update Decoder_shift Decoder_underflow cum_freqs s c = Inr c'"
proof -
  let ?P = "\<lambda>c :: decoder. decoder_state.bit_index (sub c) < 8"
  have sh: "\<exists>x. Decoder_shift c = Inr x \<and> ?P (shift_next c x)" if "?P c" for c
  proof -
    from read_code_bit_total [OF that]
    obtain b d where rd: "read_code_bit (sub c) = Inr (b, d)" by blast
    from read_code_bit_props(4) [OF rd that] show ?thesis
      by (simp add: Decoder_shift_def rd shift_next_def)
  qed
  have uf: "\<exists>x. Decoder_underflow c = Inr x \<and> ?P (underflow_next c x)" if "?P c" for c
  proof -
    from read_code_bit_total [OF that]
    obtain b d where rd: "read_code_bit (sub c) = Inr (b, d)" by blast
    from read_code_bit_props(4) [OF rd that] show ?thesis
      by (simp add: Decoder_underflow_def rd underflow_next_def)
  qed
  have p2: "?P (narrow cum_freqs s c)" using assms(4) by (simp add: narrow_def)
  from shift_loop_rule [where P = ?P and shift = Decoder_shift
      and c = "narrow cum_freqs s c", OF p2 sh]
  obtain c3 where c3: "shift_loop Decoder_shift (narrow cum_freqs s c) = Inr c3" "?P c3" by blast
  from underflow_loop_rule [where P = ?P and underflow = Decoder_underflow
      and c = c3, OF c3(2) uf]
  obtain c' where "underflow_loop Decoder_underflow c3 = Inr c'" by blast
  then show ?thesis unfolding update_unfold [OF assms(1-3)] c3(1) by simp
qed

lemma decode_value_bounds:
  assumes "low c \<le> code (sub c)" "code (sub c) \<le> high c" "0 < last cum_freqs"
  shows "0 \<le> decode_value c cum_freqs" "decode_value c cum_freqs < last cum_freqs"
proof -
  have "0 < high c - low c + 1" "0 \<le> code (sub c) - low c"
    "code (sub c) - low c < high c - low c + 1"
    using assms by simp_all
  from decode_arith(1,2) [OF this(1) assms(3) this(2,3) refl]
  show "0 \<le> decode_value c cum_freqs" "decode_value c cum_freqs < last cum_freqs"
    by (simp_all add: decode_value_def)
qed

lemma decode_symbol_selects:
  assumes "low c \<le> code (sub c)" "code (sub c) \<le> high c"
    and "decoder_state.bit_index (sub c) < 8"
    and "wf_cdf (elems cf)" "compared_exactly cf"
  defines "v \<equiv> decode_value c (elems cf)"
  shows "\<exists>s c'. decode_symbol c cf = Inr (s, c') \<and> s < length (elems cf)
           \<and> v < elems cf ! s \<and> (\<forall>j. j < s \<longrightarrow> elems cf ! j \<le> v)"
proof -
  let ?cs = "elems cf"
  from assms(4) have w: "?cs \<noteq> []" "sorted ?cs" "0 < last ?cs"
    by (simp_all add: wf_cdf_def)
  define s where "s = bisect_right ?cs v 0 (length ?cs)"
  note ss = bisect_right_sorted [OF w(2), where v = v, folded s_def]
  have v0: "0 \<le> v" unfolding v_def by (rule decode_value_bounds(1) [OF assms(1,2) w(3)])
  have vt: "v < last ?cs" unfolding v_def by (rule decode_value_bounds(2) [OF assms(1,2) w(3)])
  have se: "searchsorted cf v = s"
    unfolding s_def by (rule searchsorted_exact [OF assms(4,5) v0 vt])
  have sl: "s < length ?cs"
  proof (rule ccontr)
    assume "\<not> s < length ?cs"
    then have "length ?cs - 1 < s" using w(1) by (cases ?cs) auto
    from ss(2) [OF this] have "last ?cs \<le> v" using w(1) by (simp add: last_conv_nth)
    with vt show False by simp
  qed
  have pre: "?cs \<noteq> []" "s < length ?cs" "last ?cs \<noteq> 0"
    using w sl by auto
  from decoder_update_total [OF pre assms(3)] obtain c' where
    up: "update Decoder_shift Decoder_underflow ?cs s c = Inr c'" by blast
  have rne: "high c - low c + 1 \<noteq> 0" using assms(1,2) by simp
  have "decode_symbol c cf = Inr (s, c')"
    unfolding decode_symbol_def Let_def using w(1) rne up se
    by (simp add: v_def decode_value_def)
  moreover have "v < ?cs ! s" using ss(3) [of s] sl by simp
  moreover have "\<forall>j. j < s \<longrightarrow> ?cs ! j \<le> v" using ss(2) by blast
  ultimately show ?thesis using sl by blast
qed

lemma strict_cdf_wf: "strict_cdf cum_freqs \<Longrightarrow> wf_cdf cum_freqs"
  unfolding strict_cdf_def wf_cdf_def
  by (auto simp: strict_sorted_iff intro: less_imp_le dest: last_in_set
      intro!: sorted_wrt_mono_rel [of cum_freqs "(<)" "(\<le>)"])

lemma decode_all_total:
  assumes "dec_inv d" "\<forall>cf \<in> set cfs. wf_cdf (elems cf) \<and> compared_exactly cf"
  shows "\<exists>ss d'. decode_all d cfs = Inr (ss, d')
           \<and> list_all2 (\<lambda>s cf. s < length (elems cf)) ss cfs
           \<and> dec_inv d'"
  using assms
proof (induction cfs arbitrary: d)
  case Nil
  then show ?case by simp
next
  case (Cons cf cfs)
  from Cons.prems(2) have w: "wf_cdf (elems cf)" "compared_exactly cf" by simp_all
  define s where "s = bisect_right (elems cf) (decode_value d (elems cf)) 0 (length (elems cf))"
  from decode_symbol_correct(1,2) [OF Cons.prems(1) w, folded s_def]
  obtain d1 where d1: "decode_symbol d cf = Inr (s, d1)"
    "dec_inv d1" and sl: "s < length (elems cf)"
    by blast
  from Cons.IH [OF d1(2)] Cons.prems(2)
  obtain ss d' where r: "decode_all d1 cfs = Inr (ss, d')"
    "list_all2 (\<lambda>s cf. s < length (elems cf)) ss cfs" "dec_inv d'"
    by auto
  show ?case using d1(1) sl r by simp
qed

definition byte_bits :: "byte \<Rightarrow> bool list" where
  "byte_bits w = map (\<lambda>i. bit w (7 - i)) [0..<8]"

definition all_bits :: "byte list \<Rightarrow> bool list" where
  "all_bits data = concat (map byte_bits data)"

definition ebits :: "encoder_state \<Rightarrow> bool list" where
  "ebits x =
     take (8 * (length (encoded_data x) - 1) + encoder_state.bit_index x)
       (all_bits (encoded_data x))"

definition wf_enc :: "encoder_state \<Rightarrow> bool" where
  "wf_enc x \<longleftrightarrow>
     encoder_state.bit_index x \<le> 8 \<and>
     (if encoded_data x = [] then encoder_state.bit_index x = 8
      else 1 \<le> encoder_state.bit_index x \<and>
           (\<forall>i. i < 8 - encoder_state.bit_index x \<longrightarrow> \<not> bit (last (encoded_data x)) i))"

lemma length_byte_bits [simp]: "length (byte_bits w) = 8"
  by (simp add: byte_bits_def)

lemma length_all_bits [simp]: "length (all_bits data) = 8 * length data"
  by (induction data) (simp_all add: all_bits_def)

lemma all_bits_append [simp]: "all_bits (xs @ ys) = all_bits xs @ all_bits ys"
  by (simp add: all_bits_def)

lemma all_bits_single [simp]: "all_bits [w] = byte_bits w"
  by (simp add: all_bits_def)

lemma take_byte_bits: "k \<le> 8 \<Longrightarrow> take k (byte_bits w) = map (\<lambda>i. bit w (7 - i)) [0..<k]"
  by (simp add: byte_bits_def take_map)

lemma ebits_snoc:
  assumes "encoded_data x = ds @ [w]" "encoder_state.bit_index x = k" "k \<le> 8"
  shows "ebits x = all_bits ds @ map (\<lambda>i. bit w (7 - i)) [0..<k]"
  using assms by (simp add: ebits_def take_byte_bits)

lemma ebits_empty: "encoded_data x = [] \<Longrightarrow> ebits x = []"
  by (simp add: ebits_def all_bits_def)

lemma ebits_full:
  assumes "wf_enc x" "encoder_state.bit_index x = 8"
  shows "ebits x = all_bits (encoded_data x)"
proof (cases "encoded_data x = []")
  case True
  then show ?thesis by (simp add: ebits_def all_bits_def)
next
  case False
  then have "8 * (length (encoded_data x) - 1) + 8 = 8 * length (encoded_data x)"
    by (cases "encoded_data x") simp_all
  then show ?thesis using assms(2) by (simp add: ebits_def)
qed

lemma append_bit_fresh:
  assumes "encoder_state.bit_index x = 8"
  shows "append_bit x b =
     (let v = push_bit 7 b
      in if 0 \<le> v \<and> v < 256
         then Inr (x\<lparr>encoded_data := encoded_data x @ [word_of_int v],
                     encoder_state.bit_index := 1\<rparr>)
         else Inl (ValueError ''byte must be in range(0, 256)''))"
  using assms by (simp add: append_bit_def Let_def)

lemma append_bit_partial:
  assumes "encoder_state.bit_index x = k" "k < 8" "encoded_data x = ds @ [w]"
  shows "append_bit x b =
     (let v = uint w OR push_bit (7 - k) b
      in if 0 \<le> v \<and> v < 256
         then Inr (x\<lparr>encoded_data := ds @ [word_of_int v],
                     encoder_state.bit_index := k + 1\<rparr>)
         else Inl (ValueError ''byte must be in range(0, 256)''))"
  using assms by (simp add: append_bit_def Let_def)

lemma append_bit_wf:
  assumes "wf_enc x" "append_bit x b = Inr x'"
  shows "wf_enc x'" "num_underflow x' = num_underflow x"
proof -
  have "wf_enc x' \<and> num_underflow x' = num_underflow x"
  proof (cases "encoder_state.bit_index x = 8")
    case True
    from assms(2) have x': "x' = x\<lparr>encoded_data := encoded_data x @ [word_of_int (push_bit 7 b)],
        encoder_state.bit_index := 1\<rparr>"
      unfolding append_bit_fresh [OF True] Let_def by (simp split: if_splits)
    have "\<not> bit (word_of_int (push_bit 7 b) :: byte) i" if "i < 7" for i
      using that by (simp add: bit_word_of_int_iff bit_push_bit_iff)
    then show ?thesis by (simp add: x' wf_enc_def)
  next
    case False
    define k where "k = encoder_state.bit_index x"
    from False assms(1) have k: "k < 8" "1 \<le> k" and ne: "encoded_data x \<noteq> []"
      and z: "\<And>i. i < 8 - k \<Longrightarrow> \<not> bit (last (encoded_data x)) i"
      by (auto simp: wf_enc_def k_def split: if_splits)
    from ne obtain ds w where d: "encoded_data x = ds @ [w]"
      by (cases "encoded_data x" rule: rev_cases) auto
    from assms(2) have x': "x' = x\<lparr>encoded_data := ds @ [word_of_int (uint w OR push_bit (7 - k) b)],
        encoder_state.bit_index := k + 1\<rparr>"
      unfolding append_bit_partial [OF k_def [symmetric] k(1) d] Let_def
      by (simp split: if_splits)
    have "\<not> bit (word_of_int (uint w OR push_bit (7 - k) b) :: byte) i" if "i < 8 - (k + 1)" for i
      using that z [of i] d
      by (simp add: bit_word_of_int_iff bit_or_iff bit_push_bit_iff bit_uint_iff)
    then show ?thesis using k by (simp add: x' wf_enc_def)
  qed
  then show "wf_enc x'" "num_underflow x' = num_underflow x" by simp_all
qed

lemma bit01_push:
  assumes "b = 0 \<or> b = 1" "j < 8"
  shows "push_bit j (b::int) = uint (push_bit j (word_of_int b :: byte))"
    and "bit (push_bit j (word_of_int b :: byte)) i \<longleftrightarrow> b = 1 \<and> i = j"
proof -
  have "j \<in> {0, 1, 2, 3, 4, 5, 6, 7}" using assms(2) by auto
  then have "uint (push_bit j (1::byte)) = push_bit j 1" by auto
  then show "push_bit j (b::int) = uint (push_bit j (word_of_int b :: byte))"
    using assms(1) by auto
  show "bit (push_bit j (word_of_int b :: byte)) i \<longleftrightarrow> b = 1 \<and> i = j"
    using assms by (auto simp: bit_push_bit_iff bit_1_iff)
qed

lemma append_bit_01:
  assumes "wf_enc x" "b = 0 \<or> b = 1"
  shows "\<exists>x'. append_bit x b = Inr x' \<and> ebits x' = ebits x @ [b = 1]"
proof (cases "encoder_state.bit_index x = 8")
  case True
  define w :: byte where "w = push_bit 7 (word_of_int b)"
  have v: "push_bit 7 b = uint w" unfolding w_def using assms(2) by (intro bit01_push) auto
  have r: "0 \<le> uint w" "uint w < 256" using uint_lt2p [of w] by simp_all
  define x' where "x' = x\<lparr>encoded_data := encoded_data x @ [w], encoder_state.bit_index := 1\<rparr>"
  have a: "append_bit x b = Inr x'"
    unfolding append_bit_fresh [OF True] Let_def v using r by (simp add: x'_def)
  have "bit w 7 \<longleftrightarrow> b = 1" unfolding w_def using assms(2) by (subst bit01_push) auto
  then have "ebits x' = all_bits (encoded_data x) @ [b = 1]"
    using ebits_snoc [of x' "encoded_data x" w 1] by (simp add: x'_def)
  then have "ebits x' = ebits x @ [b = 1]" by (simp add: ebits_full [OF assms(1) True])
  with a show ?thesis by blast
next
  case False
  define k where "k = encoder_state.bit_index x"
  from False assms(1) have k: "k < 8" "1 \<le> k" and ne: "encoded_data x \<noteq> []"
    and z: "\<And>i. i < 8 - k \<Longrightarrow> \<not> bit (last (encoded_data x)) i"
    by (auto simp: wf_enc_def k_def split: if_splits)
  from ne obtain ds w0 where d: "encoded_data x = ds @ [w0]"
    by (cases "encoded_data x" rule: rev_cases) auto
  define w :: byte where "w = w0 OR push_bit (7 - k) (word_of_int b)"
  have j: "7 - k < 8" by simp
  have v: "uint w0 OR push_bit (7 - k) b = uint w"
    unfolding w_def uint_or bit01_push(1) [OF assms(2) j] ..
  have r: "0 \<le> uint w" "uint w < 256" using uint_lt2p [of w] by simp_all
  define x' where "x' = x\<lparr>encoded_data := ds @ [w], encoder_state.bit_index := k + 1\<rparr>"
  have a: "append_bit x b = Inr x'"
    unfolding append_bit_partial [OF k_def [symmetric] k(1) d] Let_def v using r
    by (simp add: x'_def)
  have bw: "bit w i \<longleftrightarrow> bit w0 i \<or> (b = 1 \<and> i = 7 - k)" for i
    unfolding w_def bit_or_iff bit01_push(2) [OF assms(2) j] ..
  have "map (\<lambda>i. bit w (7 - i)) [0..<k + 1] = map (\<lambda>i. bit w0 (7 - i)) [0..<k] @ [b = 1]"
  proof -
    have "bit w (7 - i) = bit w0 (7 - i)" if "i < k" for i
      using that k bw [of "7 - i"] by auto
    moreover have "bit w (7 - k) \<longleftrightarrow> b = 1" using bw [of "7 - k"] z [of "7 - k"] d k by auto
    ultimately show ?thesis by simp
  qed
  then have "ebits x' = ebits x @ [b = 1]"
    using ebits_snoc [of x' ds w "k + 1"] ebits_snoc [OF d k_def [symmetric]] k
    by (simp add: x'_def)
  with a show ?thesis by blast
qed

lemma num_underflow_update [simp]:
  "ebits (x\<lparr>num_underflow := n\<rparr>) = ebits x"
  "wf_enc (x\<lparr>num_underflow := n\<rparr>) = wf_enc x"
  by (simp_all add: ebits_def wf_enc_def)

lemma append_bit_times_01:
  assumes "wf_enc x" "b = 0 \<or> b = 1"
  shows "\<exists>x'. append_bit_times n b x = Inr x' \<and> ebits x' = ebits x @ replicate n (b = 1)
           \<and> wf_enc x' \<and> num_underflow x' = num_underflow x"
  using assms(1)
proof (induction n arbitrary: x)
  case 0
  then show ?case by simp
next
  case (Suc n)
  from append_bit_01 [OF Suc.prems assms(2)] obtain x1 where
    x1: "append_bit x b = Inr x1" "ebits x1 = ebits x @ [b = 1]" by blast
  note w1 = append_bit_wf [OF Suc.prems x1(1)]
  from Suc.IH [OF w1(1)] obtain x' where
    x': "append_bit_times n b x1 = Inr x'" "ebits x' = ebits x1 @ replicate n (b = 1)"
    "wf_enc x'" "num_underflow x' = num_underflow x1" by blast
  show ?case using x1 x' w1(2) by (simp add: replicate_app_Cons_same)
qed

lemma append_bit_times_wf:
  assumes "wf_enc x" "append_bit_times n b x = Inr x'"
  shows "wf_enc x'"
  using assms
proof (induction n arbitrary: x)
  case 0
  then show ?case by simp
next
  case (Suc n)
  from Suc.prems(2) obtain x1 where x1: "append_bit x b = Inr x1"
    and r: "append_bit_times n b x1 = Inr x'"
    by (auto split: sum.splits)
  from Suc.IH [OF append_bit_wf(1) [OF Suc.prems(1) x1] r] show ?case .
qed

lemma top_bit_value:
  assumes "0 \<le> l" "l < 2 ^ 64"
  shows "drop_bit (NUM_STATE_BITS - 1) (l::int) = of_bool (2 ^ 63 \<le> l)"
proof -
  have "l div 2 ^ 63 = (if 2 ^ 63 \<le> l then 1 else 0)" using assms by auto
  then show ?thesis by (simp add: NUM_STATE_BITS_def drop_bit_eq_div)
qed

lemma Encoder_shift_ok:
  assumes "wf_enc (sub c)" "0 \<le> low c" "low c < 2 ^ 64"
  shows "\<exists>x'. Encoder_shift c = Inr x'
    \<and> ebits x' = ebits (sub c) @ (2 ^ 63 \<le> low c) # replicate (num_underflow (sub c)) (\<not> 2 ^ 63 \<le> low c)
    \<and> wf_enc x' \<and> num_underflow x' = 0"
proof -
  define b :: int where "b = of_bool (2 ^ 63 \<le> low c)"
  have tb: "drop_bit (NUM_STATE_BITS - 1) (low c) = b"
    unfolding b_def by (rule top_bit_value [OF assms(2,3)])
  have b01: "b = 0 \<or> b = 1" and nb01: "b XOR 1 = 0 \<or> b XOR 1 = 1"
    and b1: "b = 1 \<longleftrightarrow> 2 ^ 63 \<le> low c" and nb1: "b XOR 1 = 1 \<longleftrightarrow> \<not> 2 ^ 63 \<le> low c"
    by (auto simp: b_def)
  from append_bit_01 [OF assms(1) b01] obtain x1 where
    x1: "append_bit (sub c) b = Inr x1" "ebits x1 = ebits (sub c) @ [b = 1]" by blast
  note w1 = append_bit_wf [OF assms(1) x1(1)]
  from append_bit_times_01 [OF w1(1) nb01, of "num_underflow x1"] obtain x2 where
    x2: "append_bit_times (num_underflow x1) (b XOR 1) x1 = Inr x2"
    "ebits x2 = ebits x1 @ replicate (num_underflow x1) (b XOR 1 = 1)"
    "wf_enc x2" by blast
  have "Encoder_shift c = Inr (x2\<lparr>num_underflow := 0\<rparr>)"
    unfolding Encoder_shift_def Let_def tb using x1(1) x2(1) by simp
  moreover have "ebits (x2\<lparr>num_underflow := 0\<rparr>) = ebits x2" by simp
  moreover have "wf_enc (x2\<lparr>num_underflow := 0\<rparr>)" using x2(3) by simp
  ultimately show ?thesis using x1(2) x2(2) w1(2) b1 nb1 by simp
qed

lemma Encoder_shift_wf:
  assumes "wf_enc (sub c)" "Encoder_shift c = Inr x'"
  shows "wf_enc x'"
proof -
  from assms(2) obtain x1 x2 where
    x1: "append_bit (sub c) (drop_bit (NUM_STATE_BITS - 1) (low c)) = Inr x1"
    and x2: "append_bit_times (num_underflow x1) (drop_bit (NUM_STATE_BITS - 1) (low c) XOR 1) x1
              = Inr x2"
    and x': "x' = x2\<lparr>num_underflow := 0\<rparr>"
    unfolding Encoder_shift_def Let_def by (auto split: sum.splits)
  have "wf_enc x2"
    by (rule append_bit_times_wf [OF append_bit_wf(1) [OF assms(1) x1] x2])
  then show ?thesis by (simp add: x')
qed

lemma Encoder_underflow_eq:
  "Encoder_underflow c = Inr ((sub c)\<lparr>num_underflow := num_underflow (sub c) + 1\<rparr>)"
  by (simp add: Encoder_underflow_def)

lemma update_Inr_pre:
  assumes "update shift underflow cum_freqs s c = Inr c'"
  shows "cum_freqs \<noteq> []" "s < length cum_freqs" "last cum_freqs \<noteq> 0"
  using assms unfolding update_def Let_def by (auto split: if_splits)

lemma encode_symbol_wf:
  assumes "encode_symbol e cum_freqs s = Inr e'" "wf_enc (sub e)"
  shows "wf_enc (sub e')"
proof -
  from assms(1) have u: "update Encoder_shift Encoder_underflow cum_freqs s e = Inr e'"
    by (simp add: encode_symbol_def)
  from u obtain c3 where
    s: "shift_loop Encoder_shift (narrow cum_freqs s e) = Inr c3"
    and uf: "underflow_loop Encoder_underflow c3 = Inr e'"
    unfolding update_unfold [OF update_Inr_pre [OF u]] by (auto split: sum.splits)
  have w2: "wf_enc (sub (narrow cum_freqs s e))" using assms(2) by (simp add: narrow_def)
  have "wf_enc (sub c3) \<and> (low c3 XOR high c3) AND half_range \<noteq> 0"
  proof (rule shift_loop_partial [where P = "\<lambda>c. wf_enc (sub c)", OF s w2])
    fix c x assume "wf_enc (sub c)" "Encoder_shift c = Inr x"
    then show "wf_enc (sub (shift_next c x))"
      by (simp add: shift_next_def Encoder_shift_wf)
  qed
  then have w3: "wf_enc (sub c3)" by simp
  have "wf_enc (sub e') \<and> (low e' AND NOT (high e')) AND quarter_range = 0"
  proof (rule underflow_loop_partial [where P = "\<lambda>c. wf_enc (sub c)", OF uf w3])
    fix c x assume "wf_enc (sub c)" "Encoder_underflow c = Inr x"
    then show "wf_enc (sub (underflow_next c x))"
      by (auto simp: underflow_next_def Encoder_underflow_def)
  qed
  then show ?thesis by simp
qed

lemma encode_all_wf:
  assumes "encode_all e ps = Inr e'" "wf_enc (sub e)"
  shows "wf_enc (sub e')"
  using assms
proof (induction ps arbitrary: e)
  case Nil
  then show ?case by simp
next
  case (Cons p ps)
  obtain cf s where p: "p = (cf, s)" by (cases p)
  from Cons.prems(1) obtain e1 where e1: "encode_symbol e cf s = Inr e1"
    and r: "encode_all e1 ps = Inr e'"
    by (auto simp: p split: sum.splits)
  from Cons.IH [OF r encode_symbol_wf [OF e1 Cons.prems(2)]] show ?case .
qed

lemma Encoder_init_wf: "wf_enc (sub Encoder_init)" "ebits (sub Encoder_init) = []"
  "get_encoded Encoder_init = []"
  by (simp_all add: Encoder_init_def coder_init_def wf_enc_def ebits_def all_bits_def
      get_encoded_def)

lemma shift_loop_back:
  assumes "shift_loop shift c = Inr c'" "I c" "Q c'"
    and "\<And>c x. I c \<Longrightarrow> (low c XOR high c) AND half_range = 0 \<Longrightarrow> shift c = Inr x
            \<Longrightarrow> I (shift_next c x)"
    and "\<And>c x. I c \<Longrightarrow> (low c XOR high c) AND half_range = 0 \<Longrightarrow> shift c = Inr x
            \<Longrightarrow> Q (shift_next c x) \<Longrightarrow> Q c"
  shows "Q c"
  using assms
proof (induction shift c rule: shift_loop.induct)
  case (1 shift c)
  show ?case
  proof (cases "(low c XOR high c) AND half_range = 0")
    case True
    have unf: "shift_loop shift c =
        (case shift c of Inl e \<Rightarrow> Inl e | Inr x \<Rightarrow> shift_loop shift (shift_next c x))"
      by (subst shift_loop_unfold) (simp add: True)
    from "1.prems"(1) obtain x where x: "shift c = Inr x"
      and r: "shift_loop shift (shift_next c x) = Inr c'"
      unfolding unf by (cases "shift c") simp_all
    from "1.prems"(4) [OF "1.prems"(2) True x] have i: "I (shift_next c x)" .
    have "Q (shift_next c x)"
      unfolding shift_next_def
      by (rule "1.IH" [OF True x r [unfolded shift_next_def] i [unfolded shift_next_def]
            "1.prems"(3,4,5)])
    from "1.prems"(5) [OF "1.prems"(2) True x this] show ?thesis .
  next
    case False
    have "shift_loop shift c = Inr c"
      by (subst shift_loop_unfold) (simp add: False)
    with "1.prems"(1) have "c' = c" by simp
    with "1.prems"(3) show ?thesis by simp
  qed
qed

lemma underflow_loop_back:
  assumes "underflow_loop underflow c = Inr c'" "I c" "Q c'"
    and "\<And>c x. I c \<Longrightarrow> (low c AND NOT (high c)) AND quarter_range \<noteq> 0 \<Longrightarrow> underflow c = Inr x
            \<Longrightarrow> I (underflow_next c x)"
    and "\<And>c x. I c \<Longrightarrow> (low c AND NOT (high c)) AND quarter_range \<noteq> 0 \<Longrightarrow> underflow c = Inr x
            \<Longrightarrow> Q (underflow_next c x) \<Longrightarrow> Q c"
  shows "Q c"
  using assms
proof (induction underflow c rule: underflow_loop.induct)
  case (1 underflow c)
  show ?case
  proof (cases "(low c AND NOT (high c)) AND quarter_range \<noteq> 0")
    case True
    have unf: "underflow_loop underflow c =
        (case underflow c of Inl e \<Rightarrow> Inl e
         | Inr x \<Rightarrow> underflow_loop underflow (underflow_next c x))"
      by (subst underflow_loop_unfold) (simp add: True)
    from "1.prems"(1) obtain x where x: "underflow c = Inr x"
      and r: "underflow_loop underflow (underflow_next c x) = Inr c'"
      unfolding unf by (cases "underflow c") simp_all
    from "1.prems"(4) [OF "1.prems"(2) True x] have i: "I (underflow_next c x)" .
    have "Q (underflow_next c x)"
      unfolding underflow_next_def
      by (rule "1.IH" [OF True x r [unfolded underflow_next_def] i [unfolded underflow_next_def]
            "1.prems"(3,4,5)])
    from "1.prems"(5) [OF "1.prems"(2) True x this] show ?thesis .
  next
    case False
    have "underflow_loop underflow c = Inr c"
      using False by (subst underflow_loop_unfold) simp
    with "1.prems"(1) have "c' = c" by simp
    with "1.prems"(3) show ?thesis by simp
  qed
qed

lemma shift_loop_sim:
  assumes "R c1 c2"
    and "\<And>c1 c2. R c1 c2 \<Longrightarrow> low c2 = low c1 \<and> high c2 = high c1"
    and "\<And>c1 c2. R c1 c2 \<Longrightarrow> (low c1 XOR high c1) AND half_range = 0
            \<Longrightarrow> \<exists>x1 x2. shift1 c1 = Inr x1 \<and> shift2 c2 = Inr x2
                  \<and> R (shift_next c1 x1) (shift_next c2 x2)"
  shows "\<exists>c1' c2'. shift_loop shift1 c1 = Inr c1' \<and> shift_loop shift2 c2 = Inr c2'
           \<and> R c1' c2' \<and> (low c1' XOR high c1') AND half_range \<noteq> 0"
  using assms
proof (induction shift1 c1 arbitrary: c2 rule: shift_loop.induct)
  case (1 shift1 c1)
  from "1.prems"(2) [OF "1.prems"(1)] have lh: "low c2 = low c1" "high c2 = high c1" by simp_all
  show ?case
  proof (cases "(low c1 XOR high c1) AND half_range = 0")
    case True
    from "1.prems"(3) [OF "1.prems"(1) True] obtain x1 x2 where
      x: "shift1 c1 = Inr x1" "shift2 c2 = Inr x2" "R (shift_next c1 x1) (shift_next c2 x2)"
      by blast
    have u1: "shift_loop shift1 c1 = shift_loop shift1 (shift_next c1 x1)"
      by (subst shift_loop_unfold) (simp add: True x(1))
    have u2: "shift_loop shift2 c2 = shift_loop shift2 (shift_next c2 x2)"
      by (subst shift_loop_unfold) (simp add: True x(2) lh)
    show ?thesis
      unfolding u1 u2
      by (rule "1.IH" [OF True x(1), folded shift_next_def, OF x(3) "1.prems"(2,3)])
  next
    case False
    have "shift_loop shift1 c1 = Inr c1"
      by (subst shift_loop_unfold) (simp add: False)
    moreover have "shift_loop shift2 c2 = Inr c2"
      by (subst shift_loop_unfold) (simp add: False lh)
    ultimately show ?thesis using False "1.prems"(1) by simp
  qed
qed

lemma underflow_loop_sim:
  assumes "R c1 c2"
    and "\<And>c1 c2. R c1 c2 \<Longrightarrow> low c2 = low c1 \<and> high c2 = high c1"
    and "\<And>c1 c2. R c1 c2 \<Longrightarrow> (low c1 AND NOT (high c1)) AND quarter_range \<noteq> 0
            \<Longrightarrow> \<exists>x1 x2. underflow1 c1 = Inr x1 \<and> underflow2 c2 = Inr x2
                  \<and> R (underflow_next c1 x1) (underflow_next c2 x2)"
  shows "\<exists>c1' c2'. underflow_loop underflow1 c1 = Inr c1' \<and> underflow_loop underflow2 c2 = Inr c2'
           \<and> R c1' c2' \<and> (low c1' AND NOT (high c1')) AND quarter_range = 0"
  using assms
proof (induction underflow1 c1 arbitrary: c2 rule: underflow_loop.induct)
  case (1 underflow1 c1)
  from "1.prems"(2) [OF "1.prems"(1)] have lh: "low c2 = low c1" "high c2 = high c1" by simp_all
  show ?case
  proof (cases "(low c1 AND NOT (high c1)) AND quarter_range \<noteq> 0")
    case True
    from "1.prems"(3) [OF "1.prems"(1) True] obtain x1 x2 where
      x: "underflow1 c1 = Inr x1" "underflow2 c2 = Inr x2"
      "R (underflow_next c1 x1) (underflow_next c2 x2)"
      by blast
    have u1: "underflow_loop underflow1 c1 = underflow_loop underflow1 (underflow_next c1 x1)"
      using True by (subst underflow_loop_unfold) (simp add: x(1))
    have u2: "underflow_loop underflow2 c2 = underflow_loop underflow2 (underflow_next c2 x2)"
      using True by (subst underflow_loop_unfold) (simp add: x(2) lh)
    show ?thesis
      unfolding u1 u2
      by (rule "1.IH" [OF True x(1), folded underflow_next_def, OF x(3) "1.prems"(2,3)])
  next
    case False
    have "underflow_loop underflow1 c1 = Inr c1"
      using False by (subst underflow_loop_unfold) simp
    moreover have "underflow_loop underflow2 c2 = Inr c2"
      using False by (subst underflow_loop_unfold) (simp add: lh)
    ultimately show ?thesis using False "1.prems"(1) by simp
  qed
qed

definition cval :: "(nat \<Rightarrow> bool) \<Rightarrow> nat \<Rightarrow> nat \<Rightarrow> int" where
  "cval \<sigma> p u = of_bool (\<sigma> p) * 2 ^ 63 + window \<sigma> (p + u + 1) 63"

definition sync :: "byte list \<Rightarrow> encoder \<Rightarrow> decoder \<Rightarrow> bool" where
  "sync data e d \<longleftrightarrow>
     low d = low e \<and> high d = high e \<and> input (sub d) = data \<and>
     code (sub d) = cval (sbit data) (length (ebits (sub e))) (num_underflow (sub e)) \<and>
     at_pos (sub d) (length (ebits (sub e)) + num_underflow (sub e) + 64)"

definition consistent :: "(nat \<Rightarrow> bool) \<Rightarrow> encoder \<Rightarrow> bool" where
  "consistent \<sigma> e \<longleftrightarrow>
     (\<forall>n. n < length (ebits (sub e)) \<longrightarrow> \<sigma> n = ebits (sub e) ! n) \<and>
     (\<forall>j. 1 \<le> j \<and> j \<le> num_underflow (sub e)
          \<longrightarrow> \<sigma> (length (ebits (sub e)) + j) = (\<not> \<sigma> (length (ebits (sub e))))) \<and>
     low e \<le> cval \<sigma> (length (ebits (sub e))) (num_underflow (sub e)) \<and>
     cval \<sigma> (length (ebits (sub e))) (num_underflow (sub e)) \<le> high e"

lemma window_64: "window \<sigma> q 64 = 2 * window \<sigma> q 63 + of_bool (\<sigma> (q + 63))"
  using window.simps(2) [of \<sigma> q 63] by simp

lemma window_63: "window \<sigma> q 63 = 2 * window \<sigma> q 62 + of_bool (\<sigma> (q + 62))"
  using window.simps(2) [of \<sigma> q 62] by simp

lemma window_front_64: "window \<sigma> q 64 = of_bool (\<sigma> q) * 2 ^ 63 + window \<sigma> (Suc q) 63"
  using window_front [of \<sigma> q 63] by simp

lemma window_front_63: "window \<sigma> q 63 = of_bool (\<sigma> q) * 2 ^ 62 + window \<sigma> (Suc q) 62"
  using window_front [of \<sigma> q 62] by simp

lemma cval_0: "cval \<sigma> p 0 = window \<sigma> p 64"
  by (simp add: cval_def window_front_64)

lemma cval_shift:
  "(2 * cval \<sigma> p u) mod 2 ^ 64 + of_bool (\<sigma> (p + u + 64)) = cval \<sigma> (p + u + 1) 0"
proof -
  define W where "W = window \<sigma> (p + u + 1) 63"
  have W: "0 \<le> W" "W < 2 ^ 63" unfolding W_def by (rule window_bounds)+
  have "(2 * cval \<sigma> p u) mod 2 ^ 64 = (2 * W + of_bool (\<sigma> p) * 2 ^ 64) mod 2 ^ 64"
    by (simp add: cval_def W_def algebra_simps)
  also have "\<dots> = (2 * W) mod 2 ^ 64" by (rule mod_mult_self1)
  also have "\<dots> = 2 * W" using W by (intro mod_pos_pos_trivial) auto
  finally have "(2 * cval \<sigma> p u) mod 2 ^ 64 = 2 * W" .
  moreover have "cval \<sigma> (p + u + 1) 0 = 2 * W + of_bool (\<sigma> (p + u + 64))"
  proof -
    have e: "p + u + 1 + 63 = p + u + 64" by simp
    show ?thesis unfolding cval_0 window_64 W_def e ..
  qed
  ultimately show ?thesis by simp
qed

lemma cval_split:
  "cval \<sigma> p u = of_bool (\<sigma> p) * 2 ^ 63 + of_bool (\<sigma> (p + u + 1)) * 2 ^ 62
      + window \<sigma> (p + u + 2) 62"
proof -
  have e: "Suc (p + u + 1) = p + u + 2" by simp
  show ?thesis unfolding cval_def window_front_63 e by (simp only: add.assoc)
qed

lemma cval_Suc:
  "cval \<sigma> p (Suc u) = of_bool (\<sigma> p) * 2 ^ 63 + 2 * window \<sigma> (p + u + 2) 62
      + of_bool (\<sigma> (p + u + 64))"
proof -
  have e: "p + Suc u + 1 = p + u + 2" "p + u + 2 + 62 = p + u + 64" by simp_all
  show ?thesis unfolding cval_def e(1) window_63 e(2) by (simp only: add.assoc)
qed

lemma cval_underflow_shape:
  assumes "\<sigma> (p + u + 1) = (\<not> \<sigma> p)"
  shows "cval \<sigma> p (Suc u) = 2 * cval \<sigma> p u - 2 ^ 63 + of_bool (\<sigma> (p + u + 64))"
proof -
  have a: "cval \<sigma> p (Suc u) = of_bool (\<sigma> p) * 2 ^ 63 + 2 * window \<sigma> (p + u + 2) 62
      + of_bool (\<sigma> (p + u + 64))" by (rule cval_Suc)
  have b: "cval \<sigma> p u = of_bool (\<sigma> p) * 2 ^ 63 + of_bool (\<sigma> (p + u + 1)) * 2 ^ 62
      + window \<sigma> (p + u + 2) 62" by (rule cval_split)
  show ?thesis unfolding a b assms by (cases "\<sigma> p") simp_all
qed

lemma cval_range_shape:
  assumes "2 ^ 62 \<le> cval \<sigma> p u" "cval \<sigma> p u < 3 * 2 ^ 62"
  shows "\<sigma> (p + u + 1) = (\<not> \<sigma> p)"
proof -
  have W: "0 \<le> window \<sigma> (p + u + 2) 62" "window \<sigma> (p + u + 2) 62 < 2 ^ 62"
    by (rule window_bounds)+
  have b: "cval \<sigma> p u = of_bool (\<sigma> p) * 2 ^ 63 + of_bool (\<sigma> (p + u + 1)) * 2 ^ 62
      + window \<sigma> (p + u + 2) 62" by (rule cval_split)
  show ?thesis
    using assms W unfolding b
    by (cases "\<sigma> p"; cases "\<sigma> (p + u + 1)") simp_all
qed

lemma at_pos_code [simp]: "at_pos (d\<lparr>code := v\<rparr>) p = at_pos d p"
  by (simp add: at_pos_def)

lemma Decoder_shift_at:
  assumes "at_pos (sub d) p" "input (sub d) = data"
  shows "\<exists>x. Decoder_shift d = Inr x \<and> input x = data \<and> at_pos x (Suc p)
    \<and> code x = (2 * code (sub d)) mod 2 ^ 64 + of_bool (sbit data p)"
proof -
  have "decoder_state.bit_index (sub d) < 8" using assms(1) by (simp add: at_pos_def)
  from read_code_bit_total [OF this]
  obtain b d1 where rd: "read_code_bit (sub d) = Inr (b, d1)" by blast
  note rp = read_code_bit_props(1-3) [OF rd] read_code_bit_at [OF assms(1) rd]
  show ?thesis
    using rp dec_shift_code [OF rp(1), of "code (sub d)"] assms(2)
    by (simp add: Decoder_shift_def rd)
qed

lemma Decoder_underflow_at:
  assumes "at_pos (sub d) p" "input (sub d) = data"
    "2 ^ 62 \<le> code (sub d)" "code (sub d) < 3 * 2 ^ 62"
  shows "\<exists>x. Decoder_underflow d = Inr x \<and> input x = data \<and> at_pos x (Suc p)
    \<and> code x = 2 * code (sub d) - 2 ^ 63 + of_bool (sbit data p)"
proof -
  have "decoder_state.bit_index (sub d) < 8" using assms(1) by (simp add: at_pos_def)
  from read_code_bit_total [OF this]
  obtain b d1 where rd: "read_code_bit (sub d) = Inr (b, d1)" by blast
  note rp = read_code_bit_props(1-3) [OF rd] read_code_bit_at [OF assms(1) rd]
  show ?thesis
    using rp dec_underflow_code [OF assms(3,4) rp(1)] assms(2)
    by (simp add: Decoder_underflow_def rd)
qed

definition lockstep :: "byte list \<Rightarrow> encoder \<Rightarrow> decoder \<Rightarrow> bool" where
  "lockstep data e d \<longleftrightarrow> sync data e d \<and> dec_inv d \<and> wf_enc (sub e)"

lemma lockstep_same: "lockstep data e d \<Longrightarrow> low d = low e \<and> high d = high e"
  by (simp add: lockstep_def sync_def)

lemma lockstep_shift:
  assumes "lockstep data e d" "(low e XOR high e) AND half_range = 0"
  shows "\<exists>x1 x2. Encoder_shift e = Inr x1 \<and> Decoder_shift d = Inr x2
           \<and> lockstep data (shift_next e x1) (shift_next d x2)"
proof -
  define p where "p = length (ebits (sub e))"
  define u where "u = num_underflow (sub e)"
  from assms(1) have lh: "low d = low e" "high d = high e" and inp: "input (sub d) = data"
    and cd: "code (sub d) = cval (sbit data) p u" and ap: "at_pos (sub d) (p + u + 64)"
    and di: "dec_inv d" and we: "wf_enc (sub e)"
    by (simp_all add: lockstep_def sync_def p_def u_def)
  from di lh have b: "0 \<le> low e" "low e < 2 ^ 64"
    by (auto simp: dec_inv_def in_word_def consts_simps)
  from Encoder_shift_ok [OF we b] obtain x1 where x1: "Encoder_shift e = Inr x1"
    and eb: "ebits x1 = ebits (sub e) @ (2 ^ 63 \<le> low e) # replicate u (\<not> 2 ^ 63 \<le> low e)"
    and w1: "wf_enc x1" and u1: "num_underflow x1 = 0"
    unfolding u_def by blast
  have cd': "(low d XOR high d) AND half_range = 0" using assms(2) lh by simp
  from dec_shift_step [OF di cd'] obtain x2 where x2: "Decoder_shift d = Inr x2"
    and di2: "dec_inv (shift_next d x2)" by blast
  from Decoder_shift_at [OF ap inp] x2 have i2: "input x2 = data"
    and a2: "at_pos x2 (Suc (p + u + 64))"
    and c2: "code x2 = (2 * code (sub d)) mod 2 ^ 64 + of_bool (sbit data (p + u + 64))"
    by auto
  have len: "length (ebits x1) = p + u + 1" by (simp add: eb p_def)
  have c2': "code x2 = cval (sbit data) (p + u + 1) 0" unfolding c2 cd by (rule cval_shift)
  have "sync data (shift_next e x1) (shift_next d x2)"
    unfolding sync_def using lh i2 a2 c2' by (simp add: shift_next_def len u1)
  moreover have "wf_enc (sub (shift_next e x1))" using w1 by (simp add: shift_next_def)
  ultimately have "lockstep data (shift_next e x1) (shift_next d x2)"
    using di2 by (simp add: lockstep_def)
  with x1 x2 show ?thesis by blast
qed

lemma lockstep_underflow:
  assumes "lockstep data e d \<and> straddles d" "(low e AND NOT (high e)) AND quarter_range \<noteq> 0"
  shows "\<exists>x1 x2. Encoder_underflow e = Inr x1 \<and> Decoder_underflow d = Inr x2
           \<and> (lockstep data (underflow_next e x1) (underflow_next d x2)
                \<and> straddles (underflow_next d x2))"
proof -
  define p where "p = length (ebits (sub e))"
  define u where "u = num_underflow (sub e)"
  from assms(1) have lh: "low d = low e" "high d = high e" and inp: "input (sub d) = data"
    and cd: "code (sub d) = cval (sbit data) p u" and ap: "at_pos (sub d) (p + u + 64)"
    and di: "dec_inv d" and we: "wf_enc (sub e)" and st: "straddles d"
    by (simp_all add: lockstep_def sync_def p_def u_def)
  define x1 where "x1 = (sub e)\<lparr>num_underflow := Suc u\<rparr>"
  have x1: "Encoder_underflow e = Inr x1" by (simp add: Encoder_underflow_def x1_def u_def)
  have cd': "(low d AND NOT (high d)) AND quarter_range \<noteq> 0" using assms(2) lh by simp
  from dec_underflow_step [OF conjI [OF di st] cd'] obtain x2 where
    x2: "Decoder_underflow d = Inr x2"
    and di2: "dec_inv (underflow_next d x2)" "straddles (underflow_next d x2)" by blast
  from st have a: "0 \<le> low d" "low d < 2 ^ 63" "2 ^ 63 \<le> high d" "high d < 2 ^ 64"
    by (simp_all add: straddles_def consts_simps)
  from cd' have bb: "bit (low d) 62" "\<not> bit (high d) 62" by (simp_all add: e3_cond)
  note ua = underflow_step_arith(3,4) [OF a bb]
  from di have k: "low d \<le> code (sub d)" "code (sub d) \<le> high d" by (simp_all add: dec_inv_def)
  have kk: "2 ^ 62 \<le> code (sub d)" "code (sub d) < 3 * 2 ^ 62" using ua k by linarith+
  from Decoder_underflow_at [OF ap inp kk] x2 have i2: "input x2 = data"
    and a2: "at_pos x2 (Suc (p + u + 64))"
    and c2: "code x2 = 2 * code (sub d) - 2 ^ 63 + of_bool (sbit data (p + u + 64))"
    by auto
  have sh: "sbit data (p + u + 1) = (\<not> sbit data p)"
    using kk unfolding cd by (rule cval_range_shape)
  have c2': "code x2 = cval (sbit data) p (Suc u)"
    unfolding c2 cd cval_underflow_shape [OF sh] ..
  have "sync data (underflow_next e x1) (underflow_next d x2)"
    unfolding sync_def using lh i2 a2 c2'
    by (simp add: underflow_next_def x1_def p_def)
  moreover have "wf_enc (sub (underflow_next e x1))"
    using we by (simp add: underflow_next_def x1_def)
  ultimately have "lockstep data (underflow_next e x1) (underflow_next d x2)"
    using di2(1) by (simp add: lockstep_def)
  with x1 x2 di2(2) show ?thesis by blast
qed

lemma consistent_shift_back:
  assumes "wf_enc (sub c) \<and> in_word c" "(low c XOR high c) AND half_range = 0"
    "Encoder_shift c = Inr x" "consistent \<sigma> (shift_next c x)"
  shows "consistent \<sigma> c"
proof -
  define p where "p = length (ebits (sub c))"
  define u where "u = num_underflow (sub c)"
  define t where "t \<longleftrightarrow> 2 ^ 63 \<le> low c"
  from assms(1) have we: "wf_enc (sub c)"
    and a: "0 \<le> low c" "low c \<le> high c" "high c < 2 ^ 64"
    by (simp_all add: in_word_def consts_simps)
  have l64: "low c < 2 ^ 64" using a by linarith
  from assms(2) have bb: "bit (low c) 63 = bit (high c) 63" by (simp add: top_bits_agree)
  from Encoder_shift_ok [OF we a(1) l64] assms(3)
  have eb: "ebits x = ebits (sub c) @ t # replicate u (\<not> t)" and u1: "num_underflow x = 0"
    by (auto simp: t_def u_def)
  have len: "length (ebits x) = p + u + 1" by (simp add: eb p_def)
  have l: "low (shift_next c x) = (2 * low c) mod 2 ^ 64"
    unfolding shift_next_def shl_mask by simp
  have h: "high (shift_next c x) = (2 * high c) mod 2 ^ 64 + 1"
    unfolding shift_next_def shl_mask even_or1 by simp
  have sb: "sub (shift_next c x) = x" by (simp add: shift_next_def)
  from assms(4) have ag: "\<And>n. n < p + u + 1 \<Longrightarrow> \<sigma> n = ebits x ! n"
    and iv: "(2 * low c) mod 2 ^ 64 \<le> cval \<sigma> (p + u + 1) 0"
      "cval \<sigma> (p + u + 1) 0 \<le> (2 * high c) mod 2 ^ 64 + 1"
    unfolding consistent_def sb l h len u1 by simp_all
  have ag1: "\<sigma> n = ebits (sub c) ! n" if "n < p" for n
    using ag [of n] that by (simp add: eb nth_append p_def)
  have sp: "\<sigma> p = t" using ag [of p] by (simp add: eb nth_append p_def)
  have sj: "\<sigma> (p + j) = (\<not> t)" if "1 \<le> j" "j \<le> u" for j
  proof -
    from that(1) obtain i where i: "j = Suc i" by (cases j) simp_all
    then have "i < u" using that(2) by simp
    then show ?thesis using ag [of "p + j"] that by (simp add: eb nth_append p_def i)
  qed
  note sa = shift_step_arith(4,5) [OF a bb]
  define W where "W = window \<sigma> (p + u + 1) 63"
  have e: "p + u + 1 + 63 = p + u + 64" by simp
  have c0: "cval \<sigma> (p + u + 1) 0 = 2 * W + of_bool (\<sigma> (p + u + 64))"
    unfolding cval_0 window_64 W_def e ..
  have cu: "cval \<sigma> p u = of_bool t * 2 ^ 63 + W" by (simp add: cval_def W_def sp)
  have "low c \<le> cval \<sigma> p u \<and> cval \<sigma> p u \<le> high c"
    using iv unfolding sa c0 cu t_def
    by (cases "\<sigma> (p + u + 64)"; cases "2 ^ 63 \<le> low c") simp_all
  then show ?thesis
    unfolding consistent_def p_def [symmetric] u_def [symmetric]
    using ag1 sp sj by (auto simp: p_def)
qed

lemma consistent_underflow_back:
  assumes "straddles c" "(low c AND NOT (high c)) AND quarter_range \<noteq> 0"
    "Encoder_underflow c = Inr x" "consistent \<sigma> (underflow_next c x)"
  shows "consistent \<sigma> c"
proof -
  define p where "p = length (ebits (sub c))"
  define u where "u = num_underflow (sub c)"
  from assms(3) have x: "x = (sub c)\<lparr>num_underflow := Suc u\<rparr>"
    by (simp add: Encoder_underflow_def u_def)
  note su = straddles_underflow_next(2,3) [OF assms(1,2), of x]
  have sb: "sub (underflow_next c x) = x" by (simp add: underflow_next_def)
  from assms(4) have ag: "\<And>n. n < p \<Longrightarrow> \<sigma> n = ebits (sub c) ! n"
    and sj: "\<And>j. 1 \<le> j \<Longrightarrow> j \<le> Suc u \<Longrightarrow> \<sigma> (p + j) = (\<not> \<sigma> p)"
    and iv: "2 * low c - 2 ^ 63 \<le> cval \<sigma> p (Suc u)"
      "cval \<sigma> p (Suc u) \<le> 2 * high c - 2 ^ 63 + 1"
    unfolding consistent_def sb su by (simp_all add: x p_def)
  have sh: "\<sigma> (p + u + 1) = (\<not> \<sigma> p)" using sj [of "Suc u"] by simp
  have "low c \<le> cval \<sigma> p u \<and> cval \<sigma> p u \<le> high c"
    using iv unfolding cval_underflow_shape [OF sh] by (cases "\<sigma> (p + u + 64)") simp_all
  then show ?thesis
    unfolding consistent_def p_def [symmetric] u_def [symmetric]
    using ag sj by (auto simp: p_def)
qed

lemma Encoder_shift_step:
  assumes "wf_enc (sub c) \<and> in_word c" "(low c XOR high c) AND half_range = 0"
  shows "\<exists>x. Encoder_shift c = Inr x \<and> (wf_enc (sub (shift_next c x)) \<and> in_word (shift_next c x))"
proof -
  from assms(1) have we: "wf_enc (sub c)" and iw: "in_word c" by simp_all
  from iw have b: "0 \<le> low c" "low c < 2 ^ 64" by (auto simp: in_word_def consts_simps)
  from Encoder_shift_ok [OF we b] obtain x where x: "Encoder_shift c = Inr x" "wf_enc x" by blast
  have "wf_enc (sub (shift_next c x))" using x(2) by (simp add: shift_next_def)
  with x(1) in_word_shift_next [OF iw assms(2), of x] show ?thesis by blast
qed

lemma Encoder_underflow_step:
  assumes "wf_enc (sub c) \<and> straddles c" "(low c AND NOT (high c)) AND quarter_range \<noteq> 0"
  shows "\<exists>x. Encoder_underflow c = Inr x
           \<and> (wf_enc (sub (underflow_next c x)) \<and> straddles (underflow_next c x))"
proof -
  define x where "x = (sub c)\<lparr>num_underflow := num_underflow (sub c) + 1\<rparr>"
  have "Encoder_underflow c = Inr x" by (simp add: Encoder_underflow_def x_def)
  moreover have "wf_enc (sub (underflow_next c x))"
    using assms(1) by (simp add: underflow_next_def x_def)
  moreover have "straddles (underflow_next c x)"
    using assms by (intro straddles_underflow_next(1)) simp_all
  ultimately show ?thesis by blast
qed

lemma encode_symbol_ok:
  assumes "codeable (cum_freqs, s)" "coder_inv e" "wf_enc (sub e)"
  shows "\<exists>c3 e'. shift_loop Encoder_shift (narrow cum_freqs s e) = Inr c3
           \<and> wf_enc (sub c3) \<and> straddles c3
           \<and> underflow_loop Encoder_underflow c3 = Inr e'
           \<and> encode_symbol e cum_freqs s = Inr e' \<and> coder_inv e' \<and> wf_enc (sub e')"
proof -
  from assms(1) have cd: "wf_cdf cum_freqs" "in_support cum_freqs s"
    "last cum_freqs \<le> quarter_range + 2"
    by (simp_all add: codeable_def)
  have pre: "cum_freqs \<noteq> []" "s < length cum_freqs" "last cum_freqs \<noteq> 0"
    using cd by (auto simp: wf_cdf_def in_support_def)
  have p2: "wf_enc (sub (narrow cum_freqs s e)) \<and> in_word (narrow cum_freqs s e)"
    using narrow_in_word(1) [OF assms(2) cd] assms(3) by (simp add: narrow_def)
  from shift_loop_rule [where P = "\<lambda>c. wf_enc (sub c) \<and> in_word c" and shift = Encoder_shift,
      OF p2 Encoder_shift_step]
  obtain c3 where c3: "shift_loop Encoder_shift (narrow cum_freqs s e) = Inr c3"
    "wf_enc (sub c3)" "in_word c3" "(low c3 XOR high c3) AND half_range \<noteq> 0"
    by blast
  have st3: "straddles c3" by (rule in_word_exit [OF c3(3,4)])
  have p3: "wf_enc (sub c3) \<and> straddles c3" using c3(2) st3 by simp
  from underflow_loop_rule [where P = "\<lambda>c. wf_enc (sub c) \<and> straddles c"
      and underflow = Encoder_underflow, OF p3 Encoder_underflow_step]
  obtain e' where e': "underflow_loop Encoder_underflow c3 = Inr e'"
    "wf_enc (sub e')" "straddles e'" "(low e' AND NOT (high e')) AND quarter_range = 0"
    by blast
  have "encode_symbol e cum_freqs s = Inr e'"
    unfolding encode_symbol_def update_unfold [OF pre] c3(1) using e'(1) by simp
  moreover have "coder_inv e'" by (rule straddles_exit [OF e'(3,4)])
  ultimately show ?thesis using c3(1,2) st3 e'(1,2) by blast
qed

lemma encode_symbol_back:
  assumes "codeable (cum_freqs, s)" "coder_inv e" "wf_enc (sub e)"
    and "encode_symbol e cum_freqs s = Inr e'" "consistent \<sigma> e'"
  shows "consistent \<sigma> (narrow cum_freqs s e)" "consistent \<sigma> e"
proof -
  from assms(1) have cd: "wf_cdf cum_freqs" "in_support cum_freqs s"
    "last cum_freqs \<le> quarter_range + 2"
    by (simp_all add: codeable_def)
  from encode_symbol_ok [OF assms(1-3)] assms(4) obtain c3 where
    c3: "shift_loop Encoder_shift (narrow cum_freqs s e) = Inr c3" "straddles c3"
    and uf: "underflow_loop Encoder_underflow c3 = Inr e'"
    by auto
  have q3: "consistent \<sigma> c3"
  proof (rule underflow_loop_back [where I = straddles and Q = "consistent \<sigma>", OF uf c3(2) assms(5)])
    fix c x assume "straddles c" "(low c AND NOT (high c)) AND quarter_range \<noteq> 0"
    then show "straddles (underflow_next c x)" by (rule straddles_underflow_next(1))
  next
    fix c x
    assume "straddles c" "(low c AND NOT (high c)) AND quarter_range \<noteq> 0"
      "Encoder_underflow c = Inr x" "consistent \<sigma> (underflow_next c x)"
    then show "consistent \<sigma> c" by (rule consistent_underflow_back)
  qed
  have p2: "wf_enc (sub (narrow cum_freqs s e)) \<and> in_word (narrow cum_freqs s e)"
    using narrow_in_word(1) [OF assms(2) cd] assms(3) by (simp add: narrow_def)
  show q2: "consistent \<sigma> (narrow cum_freqs s e)"
  proof (rule shift_loop_back [where I = "\<lambda>c. wf_enc (sub c) \<and> in_word c"
        and Q = "consistent \<sigma>", OF c3(1) p2 q3])
    fix c x
    assume a: "wf_enc (sub c) \<and> in_word c" "(low c XOR high c) AND half_range = 0"
      "Encoder_shift c = Inr x"
    from Encoder_shift_step [OF a(1,2)] a(3)
    show "wf_enc (sub (shift_next c x)) \<and> in_word (shift_next c x)" by auto
  next
    fix c x
    assume "wf_enc (sub c) \<and> in_word c" "(low c XOR high c) AND half_range = 0"
      "Encoder_shift c = Inr x" "consistent \<sigma> (shift_next c x)"
    then show "consistent \<sigma> c" by (rule consistent_shift_back)
  qed
  have sb: "sub (narrow cum_freqs s e) = sub e" by (simp add: narrow_def)
  show "consistent \<sigma> e"
    using q2 narrow_in_word(2,3) [OF assms(2) cd]
    unfolding consistent_def sb by auto
qed

lemma select_unique:
  fixes r off total :: int
  assumes "wf_cdf cum_freqs" "in_support cum_freqs s" "0 < r" "total = last cum_freqs"
    and "sym_low cum_freqs s * r div total \<le> off" "off \<le> cum_freqs ! s * r div total - 1"
  shows "bisect_right cum_freqs (((off + 1) * total - 1) div r) 0 (length cum_freqs) = s"
proof -
  define v where "v = ((off + 1) * total - 1) div r"
  from assms(1) have w: "cum_freqs \<noteq> []" "sorted cum_freqs" "0 < last cum_freqs"
    by (simp_all add: wf_cdf_def)
  from assms(2) have sl: "s < length cum_freqs" by (simp add: in_support_def)
  have t0: "0 < total" using w(3) assms(4) by simp
  have up: "v < cum_freqs ! s"
  proof -
    have "(off + 1) * total \<le> (cum_freqs ! s * r div total) * total"
      using assms(6) t0 by (intro mult_right_mono) auto
    also have "\<dots> \<le> cum_freqs ! s * r" by (rule int_div_bounds(1) [OF t0])
    finally have "(off + 1) * total - 1 < cum_freqs ! s * r" by simp
    then show ?thesis unfolding v_def using assms(3) by (intro int_div_less)
  qed
  have lo: "sym_low cum_freqs s \<le> v"
  proof -
    have "sym_low cum_freqs s * r < (sym_low cum_freqs s * r div total + 1) * total"
      by (rule int_div_bounds(2) [OF t0])
    also have "\<dots> \<le> (off + 1) * total" using assms(5) t0 by (intro mult_right_mono) auto
    finally have "sym_low cum_freqs s * r \<le> (off + 1) * total - 1" by simp
    then have "sym_low cum_freqs s * r div r \<le> ((off + 1) * total - 1) div r"
      using assms(3) by (intro zdiv_mono1)
    then show ?thesis using assms(3) by (simp add: v_def)
  qed
  have below: "cum_freqs ! j \<le> v" if "j < s" for j
  proof -
    from that have s0: "0 < s" by simp
    have "cum_freqs ! j \<le> cum_freqs ! (s - 1)"
      using that sl w(2) by (intro sorted_nth_mono) auto
    with lo s0 show ?thesis by (simp add: sym_low_def)
  qed
  define s' where "s' = bisect_right cum_freqs v 0 (length cum_freqs)"
  note ss = bisect_right_sorted [OF w(2), where v = v, folded s'_def]
  have "\<not> s < s'" using ss(2) [of s] up by auto
  moreover have "\<not> s' < s"
  proof
    assume a: "s' < s"
    then have "s' < length cum_freqs" using sl by simp
    from ss(3) [OF order_refl this] below [OF a] show False by simp
  qed
  ultimately show ?thesis unfolding s'_def v_def by simp
qed

lemma decode_symbol_lockstep:
  assumes "codeable (elems cf, s)" "coder_inv e" "wf_enc (sub e)"
    and "encode_symbol e (elems cf) s = Inr e'"
    and "consistent (sbit data) (narrow (elems cf) s e)"
    and "lockstep data e d"
    and "compared_exactly cf"
  shows "\<exists>d'. decode_symbol d cf = Inr (s, d') \<and> lockstep data e' d'"
proof -
  let ?cs = "elems cf"
  from assms(1) have cd: "wf_cdf ?cs" "in_support ?cs s"
    "last ?cs \<le> quarter_range + 2"
    by (simp_all add: codeable_def)
  have pre: "?cs \<noteq> []" "s < length ?cs" "last ?cs \<noteq> 0"
    using cd by (auto simp: wf_cdf_def in_support_def)
  from assms(6) have lh: "low d = low e" "high d = high e" and sy: "sync data e d"
    and di: "dec_inv d"
    by (simp_all add: lockstep_def sync_def)
  from di have k8: "decoder_state.bit_index (sub d) < 8"
    and kd: "low d \<le> code (sub d)" "code (sub d) \<le> high d"
    by (simp_all add: dec_inv_def)
  from sy have cdv: "code (sub d)
      = cval (sbit data) (length (ebits (sub e))) (num_underflow (sub e))"
    by (simp add: sync_def)
  have sb: "sub (narrow ?cs s e) = sub e" "sub (narrow ?cs s d) = sub d"
    by (simp_all add: narrow_def)
  have nl: "low (narrow ?cs s d) = low (narrow ?cs s e)"
    "high (narrow ?cs s d) = high (narrow ?cs s e)"
    by (simp_all add: narrow_def lh)
  from assms(5) have k2: "low (narrow ?cs s e) \<le> code (sub d)"
    "code (sub d) \<le> high (narrow ?cs s e)"
    unfolding consistent_def sb cdv by simp_all
  define r where "r = high e - low e + 1"
  define off where "off = code (sub d) - low e"
  have r0: "0 < r" using assms(2) by (auto simp: r_def coder_inv_def straddles_def consts_simps)
  have b1: "sym_low ?cs s * r div last ?cs \<le> off"
    and b2: "off \<le> ?cs ! s * r div last ?cs - 1"
    using k2 by (simp_all add: narrow_def r_def off_def)
  have l0: "0 < last ?cs" using cd(1) by (simp add: wf_cdf_def)
  have "bisect_right ?cs (decode_value d ?cs) 0 (length ?cs) = s"
    using select_unique [OF cd(1,2) r0 refl b1 b2]
    by (simp add: decode_value_def lh r_def off_def)
  with searchsorted_exact [OF cd(1) assms(7) decode_value_bounds [OF kd l0]]
  have sel: "searchsorted cf (decode_value d ?cs) = s" by simp
  have ci: "coder_inv d" using assms(2) lh by (simp add: coder_inv_def straddles_def)
  have l2: "lockstep data (narrow ?cs s e) (narrow ?cs s d)"
  proof -
    have "sync data (narrow ?cs s e) (narrow ?cs s d)"
      using sy unfolding sync_def sb nl by simp
    moreover have "dec_inv (narrow ?cs s d)"
      unfolding dec_inv_def sb nl using narrow_in_word(1) [OF ci cd] k2 k8 by (simp add: nl)
    ultimately show ?thesis using assms(3) by (simp add: lockstep_def sb)
  qed
  have "\<exists>c1' c2'. shift_loop Encoder_shift (narrow ?cs s e) = Inr c1'
      \<and> shift_loop Decoder_shift (narrow ?cs s d) = Inr c2'
      \<and> lockstep data c1' c2' \<and> (low c1' XOR high c1') AND half_range \<noteq> 0"
  proof (rule shift_loop_sim [where R = "lockstep data"])
    show "lockstep data (narrow ?cs s e) (narrow ?cs s d)" by (rule l2)
  next
    fix c1 c2 assume "lockstep data c1 c2"
    then show "low c2 = low c1 \<and> high c2 = high c1" by (rule lockstep_same)
  next
    fix c1 c2 assume "lockstep data c1 c2" "(low c1 XOR high c1) AND half_range = 0"
    then show "\<exists>x1 x2. Encoder_shift c1 = Inr x1 \<and> Decoder_shift c2 = Inr x2
        \<and> lockstep data (shift_next c1 x1) (shift_next c2 x2)"
      by (rule lockstep_shift)
  qed
  then obtain c3 d3 where c3: "shift_loop Encoder_shift (narrow ?cs s e) = Inr c3"
    and d3: "shift_loop Decoder_shift (narrow ?cs s d) = Inr d3"
    and l3: "lockstep data c3 d3" and x3: "(low c3 XOR high c3) AND half_range \<noteq> 0"
    by blast
  have st3: "straddles d3"
  proof -
    from l3 have "in_word d3" "low d3 = low c3" "high d3 = high c3"
      by (simp_all add: lockstep_def dec_inv_def sync_def)
    then show ?thesis using x3 by (intro in_word_exit) simp_all
  qed
  have l3': "lockstep data c3 d3 \<and> straddles d3" using l3 st3 by simp
  have "\<exists>c1' c2'. underflow_loop Encoder_underflow c3 = Inr c1'
      \<and> underflow_loop Decoder_underflow d3 = Inr c2'
      \<and> (lockstep data c1' c2' \<and> straddles c2')
      \<and> (low c1' AND NOT (high c1')) AND quarter_range = 0"
  proof (rule underflow_loop_sim [where R = "\<lambda>c1 c2. lockstep data c1 c2 \<and> straddles c2"])
    show "lockstep data c3 d3 \<and> straddles d3" by (rule l3')
  next
    fix c1 c2 assume "lockstep data c1 c2 \<and> straddles c2"
    then show "low c2 = low c1 \<and> high c2 = high c1" using lockstep_same by blast
  next
    fix c1 c2
    assume "lockstep data c1 c2 \<and> straddles c2"
      "(low c1 AND NOT (high c1)) AND quarter_range \<noteq> 0"
    then show "\<exists>x1 x2. Encoder_underflow c1 = Inr x1 \<and> Decoder_underflow c2 = Inr x2
        \<and> (lockstep data (underflow_next c1 x1) (underflow_next c2 x2)
             \<and> straddles (underflow_next c2 x2))"
      by (rule lockstep_underflow)
  qed
  then obtain e4 d4 where e4: "underflow_loop Encoder_underflow c3 = Inr e4"
    and d4: "underflow_loop Decoder_underflow d3 = Inr d4"
    and l4: "lockstep data e4 d4"
    by blast
  have "encode_symbol e ?cs s = Inr e4"
    unfolding encode_symbol_def update_unfold [OF pre] c3 using e4 by simp
  with assms(4) have ee: "e4 = e'" by simp
  have up: "update Decoder_shift Decoder_underflow ?cs s d = Inr d4"
    unfolding update_unfold [OF pre] d3 using d4 by simp
  have rne: "high d - low d + 1 \<noteq> 0" using r0 lh by (simp add: r_def)
  have "decode_symbol d cf = Inr (s, d4)"
    unfolding decode_symbol_def Let_def using pre(1) rne up sel
    by (simp add: decode_value_def)
  with l4 ee show ?thesis by blast
qed

fun max_total :: "array_like \<Rightarrow> int" where
  "max_total (PyList xs) = quarter_range + 2"
| "max_total (FloatArray xs) = 2 ^ 53"

definition codeable_as :: "array_like \<times> nat \<Rightarrow> bool" where
  "codeable_as p \<longleftrightarrow>
     wf_cdf (elems (fst p)) \<and> in_support (elems (fst p)) (snd p)
       \<and> last (elems (fst p)) \<le> max_total (fst p)"

definition int_values :: "array_like \<times> nat \<Rightarrow> int list \<times> nat" where
  "int_values p = (elems (fst p), snd p)"

lemma codeable_as_codeable:
  assumes "codeable_as (cf, s)"
  shows "codeable (elems cf, s)" "compared_exactly cf"
  using assms by (cases cf; simp add: codeable_as_def codeable_def consts_simps)+

lemma roundtrip_run:
  assumes "list_all codeable_as ps" "coder_inv e" "wf_enc (sub e)"
  shows "\<exists>e'. encode_all e (map int_values ps) = Inr e' \<and> coder_inv e' \<and> wf_enc (sub e')
    \<and> (\<forall>data. consistent (sbit data) e' \<longrightarrow>
          consistent (sbit data) e
          \<and> (\<forall>d. lockstep data e d \<longrightarrow>
                (\<exists>d'. decode_all d (map fst ps) = Inr (map snd ps, d'))))"
  using assms
proof (induction ps arbitrary: e)
  case Nil
  then show ?case by simp
next
  case (Cons p ps)
  obtain cf s where p: "p = (cf, s)" by (cases p)
  from Cons.prems(1) have ca: "codeable_as (cf, s)" and cs: "list_all codeable_as ps"
    by (simp_all add: p)
  note c1 = codeable_as_codeable(1) [OF ca] and ex = codeable_as_codeable(2) [OF ca]
  from encode_symbol_ok [OF c1 Cons.prems(2,3)] obtain e1 where
    e1: "encode_symbol e (elems cf) s = Inr e1" "coder_inv e1" "wf_enc (sub e1)" by blast
  from Cons.IH [OF cs e1(2,3)] obtain e' where
    e': "encode_all e1 (map int_values ps) = Inr e'" "coder_inv e'" "wf_enc (sub e')"
    and rest: "\<And>data. consistent (sbit data) e' \<Longrightarrow> consistent (sbit data) e1"
      "\<And>data d. consistent (sbit data) e' \<Longrightarrow> lockstep data e1 d
          \<Longrightarrow> \<exists>d'. decode_all d (map fst ps) = Inr (map snd ps, d')"
    by blast
  have enc: "encode_all e (map int_values (p # ps)) = Inr e'"
    using e1(1) e'(1) by (simp add: p int_values_def)
  have "consistent (sbit data) e
      \<and> (\<forall>d. lockstep data e d \<longrightarrow>
            (\<exists>d'. decode_all d (map fst (p # ps)) = Inr (map snd (p # ps), d')))"
    if c: "consistent (sbit data) e'" for data
  proof -
    note cons1 = rest(1) [OF c]
    note bk = encode_symbol_back [OF c1 Cons.prems(2,3) e1(1) cons1]
    have "\<exists>d'. decode_all d (map fst (p # ps)) = Inr (map snd (p # ps), d')"
      if l: "lockstep data e d" for d
    proof -
      from decode_symbol_lockstep [OF c1 Cons.prems(2,3) e1(1) bk(1) l ex]
      obtain d1 where d1: "decode_symbol d cf = Inr (s, d1)" "lockstep data e1 d1" by blast
      from rest(2) [OF c d1(2)] obtain d' where
        "decode_all d1 (map fst ps) = Inr (map snd ps, d')" by blast
      then show ?thesis using d1(1) by (simp add: p)
    qed
    with bk(2) show ?thesis by blast
  qed
  with enc e'(2,3) show ?case by blast
qed

lemma all_bits_nth:
  assumes "n < 8 * length data"
  shows "all_bits data ! n = bit (data ! (n div 8)) (7 - n mod 8)"
  using assms
proof (induction data arbitrary: n)
  case Nil
  then show ?case by simp
next
  case (Cons w ds)
  have ab: "all_bits (w # ds) = byte_bits w @ all_bits ds" by (simp add: all_bits_def)
  show ?case
  proof (cases "n < 8")
    case True
    then show ?thesis by (simp add: ab nth_append byte_bits_def)
  next
    case False
    then obtain m where m: "n = m + 8" by (metis add.commute le_Suc_ex not_less)
    with Cons.prems have "m < 8 * length ds" by simp
    moreover have "(m + 8) div 8 = Suc (m div 8)" by simp
    ultimately show ?thesis using Cons.IH [of m] by (simp add: ab nth_append m)
  qed
qed

lemma length_ebits:
  assumes "wf_enc x" "encoded_data x \<noteq> []"
  shows "length (ebits x) = 8 * (length (encoded_data x) - 1) + encoder_state.bit_index x"
proof -
  from assms have "encoder_state.bit_index x \<le> 8" by (simp add: wf_enc_def)
  moreover from assms(2) have "8 * (length (encoded_data x) - 1) + 8 = 8 * length (encoded_data x)"
    by (cases "encoded_data x") simp_all
  ultimately show ?thesis by (simp add: ebits_def)
qed

lemma sbit_ebits:
  assumes "wf_enc x"
  shows "sbit (encoded_data x) n \<longleftrightarrow> n < length (ebits x) \<and> ebits x ! n"
proof (cases "encoded_data x = []")
  case True
  then show ?thesis by (simp add: sbit_def ebits_empty)
next
  case False
  define k where "k = encoder_state.bit_index x"
  define len where "len = length (encoded_data x)"
  from assms False have k: "1 \<le> k" "k \<le> 8"
    and z: "\<And>i. i < 8 - k \<Longrightarrow> \<not> bit (last (encoded_data x)) i"
    by (simp_all add: wf_enc_def k_def)
  have len: "1 \<le> len" using False by (cases "encoded_data x") (simp_all add: len_def)
  have m: "length (ebits x) = 8 * (len - 1) + k"
    using length_ebits [OF assms False] by (simp add: k_def len_def)
  show ?thesis
  proof (cases "n < 8 * (len - 1) + k")
    case True
    then have n: "n < 8 * len" using k len by simp
    have "ebits x ! n = all_bits (encoded_data x) ! n"
      using True by (simp add: ebits_def k_def len_def)
    also have "\<dots> = bit (encoded_data x ! (n div 8)) (7 - n mod 8)"
      using n by (intro all_bits_nth) (simp add: len_def)
    finally have "ebits x ! n = bit (encoded_data x ! (n div 8)) (7 - n mod 8)" .
    moreover have "n div 8 < length (encoded_data x)"
      using n by (intro less_mult_imp_div_less) (simp add: len_def mult.commute)
    ultimately show ?thesis using True by (simp add: sbit_def m)
  next
    case False
    show ?thesis
    proof (cases "n < 8 * len")
      case n: True
      have d: "n div 8 = len - 1" using False n k len by simp
      have "k \<le> n mod 8"
      proof -
        have "n = 8 * (n div 8) + n mod 8" by simp
        with False show ?thesis unfolding d by linarith
      qed
      then have "7 - n mod 8 < 8 - k" using k by simp
      from z [OF this] have "\<not> bit (encoded_data x ! (n div 8)) (7 - n mod 8)"
        using \<open>encoded_data x \<noteq> []\<close> by (simp add: d last_conv_nth len_def)
      then show ?thesis using False by (simp add: sbit_def m)
    next
      case n: False
      then have "len * 8 \<le> n" by simp
      then have "len \<le> n div 8" by (simp add: less_eq_div_iff_mult_less_eq)
      then have "\<not> sbit (encoded_data x) n" by (simp add: sbit_def len_def)
      then show ?thesis using False by (simp add: m)
    qed
  qed
qed

lemma window_zero:
  assumes "\<And>n. q \<le> n \<Longrightarrow> \<not> \<sigma> n"
  shows "window \<sigma> q k = 0"
  by (induction k) (simp_all add: assms)

lemma finish_ok:
  assumes "wf_enc (sub e)"
  shows "\<exists>e'. finish e = Inr e' \<and> ebits (sub e') = ebits (sub e) @ [True] \<and> wf_enc (sub e')
           \<and> low e' = low e \<and> high e' = high e
           \<and> num_underflow (sub e') = num_underflow (sub e)"
proof -
  from append_bit_01 [OF assms, of 1] obtain x where
    x: "append_bit (sub e) 1 = Inr x" "ebits x = ebits (sub e) @ [True]" by auto
  note w = append_bit_wf [OF assms x(1)]
  show ?thesis using x w by (simp add: finish_def)
qed

lemma final_consistent:
  assumes "coder_inv e" "wf_enc x" "ebits x = ebits (sub e) @ [True]"
  shows "consistent (sbit (encoded_data x)) e"
proof -
  define p where "p = length (ebits (sub e))"
  define u where "u = num_underflow (sub e)"
  let ?\<sigma> = "sbit (encoded_data x)"
  have s: "?\<sigma> n \<longleftrightarrow> n < p + 1 \<and> (ebits (sub e) @ [True]) ! n" for n
    using sbit_ebits [OF assms(2), of n] by (simp add: assms(3) p_def)
  have ag: "?\<sigma> n = ebits (sub e) ! n" if "n < p" for n
    using that by (simp add: s nth_append p_def)
  have sp: "?\<sigma> p" by (simp add: s nth_append p_def)
  have sj: "\<not> ?\<sigma> n" if "p < n" for n using that by (simp add: s)
  have "window ?\<sigma> (p + u + 1) 63 = 0" by (rule window_zero) (simp add: sj)
  then have cv: "cval ?\<sigma> p u = 2 ^ 63" by (simp add: cval_def sp)
  from assms(1) have "low e \<le> 2 ^ 63" "2 ^ 63 \<le> high e"
    by (simp_all add: coder_inv_def straddles_def consts_simps)
  then show ?thesis
    unfolding consistent_def p_def [symmetric] u_def [symmetric] cv
    using ag sp sj by simp
qed

lemma initial_lockstep:
  assumes "Decoder_init data = Inr d"
  shows "lockstep data Encoder_init d"
proof -
  have e: "low Encoder_init = 0" "high Encoder_init = state_mask"
    "num_underflow (sub Encoder_init) = 0"
    by (simp_all add: Encoder_init_def coder_init_def)
  have "sync data Encoder_init d"
    unfolding sync_def e Encoder_init_wf(2)
    by (simp add: cval_0 Decoder_init_props [OF assms])
  then show ?thesis
    by (simp add: lockstep_def Decoder_init_inv [OF assms] Encoder_init_wf(1))
qed

lemma Encoder_init_inv: "coder_inv Encoder_init"
  unfolding Encoder_init_def by (rule coder_init_inv)

lemma roundtrip:
  assumes "list_all codeable_as ps"
  shows "\<exists>bs. encode (map int_values ps) = Inr bs \<and> decode bs (map fst ps) = Inr (map snd ps)"
proof -
  from roundtrip_run [OF assms Encoder_init_inv Encoder_init_wf(1)] obtain e where
    e: "encode_all Encoder_init (map int_values ps) = Inr e" "coder_inv e" "wf_enc (sub e)"
    and dec: "\<And>data d. consistent (sbit data) e \<Longrightarrow> lockstep data Encoder_init d
        \<Longrightarrow> \<exists>d'. decode_all d (map fst ps) = Inr (map snd ps, d')"
    by blast
  from finish_ok [OF e(3)] obtain e' where
    e': "finish e = Inr e'" "ebits (sub e') = ebits (sub e) @ [True]" "wf_enc (sub e')"
    by blast
  define bs where "bs = get_encoded e'"
  have enc: "encode (map int_values ps) = Inr bs" by (simp add: encode_def e(1) e'(1) bs_def)
  have "consistent (sbit bs) e"
    unfolding bs_def get_encoded_def by (rule final_consistent [OF e(2) e'(3,2)])
  moreover from Decoder_init_total obtain d0 where d0: "Decoder_init bs = Inr d0" by blast
  ultimately obtain d' where
    "decode_all d0 (map fst ps) = Inr (map snd ps, d')"
    using dec [OF _ initial_lockstep [OF d0]] by blast
  then have "decode bs (map fst ps) = Inr (map snd ps)" by (simp add: decode_def d0)
  with enc show ?thesis by blast
qed

text \<open>
  The output format in the specification's words: a bit stream packed into bytes, most
  significant bit first, the last byte padded with zero bits.
\<close>

definition bits_to_byte :: "bool list \<Rightarrow> byte" where
  "bits_to_byte bs = horner_sum of_bool 2 (rev bs)"

function pack_bits :: "bool list \<Rightarrow> byte list" where
  "pack_bits bs =
     (if bs = [] then []
      else bits_to_byte (take 8 (bs @ replicate 7 False)) # pack_bits (drop 8 bs))"
  by pat_completeness auto
termination
  by (relation "measure length") auto

declare pack_bits.simps [simp del]

lemma pack_bits_Nil [simp]: "pack_bits [] = []"
  by (subst pack_bits.simps) simp

lemma byte_bits_rev: "byte_bits w = rev (map (bit w) [0..<8])"
proof (rule nth_equalityI)
  show "length (byte_bits w) = length (rev (map (bit w) [0..<8]))" by simp
next
  fix i assume "i < length (byte_bits w)"
  then have i: "i < 8" by simp
  then show "byte_bits w ! i = rev (map (bit w) [0..<8]) ! i"
    by (simp add: byte_bits_def rev_nth)
qed

lemma bits_to_byte_byte_bits [simp]: "bits_to_byte (byte_bits w) = w"
proof -
  have "bits_to_byte (byte_bits w) = horner_sum of_bool 2 (map (bit w) [0..<8])"
    by (simp add: bits_to_byte_def byte_bits_rev)
  also have "\<dots> = take_bit 8 w" by (rule horner_sum_bit_eq_take_bit)
  also have "\<dots> = w" by (rule take_bit_word_eq_self) simp
  finally show ?thesis .
qed

lemma pack_bits_chunk:
  assumes "length c = 8"
  shows "pack_bits (c @ bs) = bits_to_byte c # pack_bits bs"
proof -
  from assms have "c \<noteq> []" by auto
  then show ?thesis using assms by (subst pack_bits.simps) simp
qed

lemma pack_all_bits: "pack_bits (all_bits ds @ bs) = ds @ pack_bits bs"
proof (induction ds)
  case Nil
  then show ?case by (simp add: all_bits_def)
next
  case (Cons w ds)
  have "all_bits (w # ds) @ bs = byte_bits w @ (all_bits ds @ bs)" by (simp add: all_bits_def)
  then show ?case using Cons by (simp add: pack_bits_chunk)
qed

lemma pack_bits_last:
  assumes "1 \<le> k" "k \<le> 8" "\<And>i. i < 8 - k \<Longrightarrow> \<not> bit w i"
  shows "pack_bits (map (\<lambda>i. bit w (7 - i)) [0..<k]) = [w]"
proof -
  let ?l = "map (\<lambda>i. bit w (7 - i)) [0..<k]"
  have ne: "?l \<noteq> []" using assms(1) by simp
  have "take 8 (?l @ replicate 7 False) = byte_bits w"
  proof (rule nth_equalityI)
    show "length (take 8 (?l @ replicate 7 False)) = length (byte_bits w)"
      using assms(1,2) by simp
  next
    fix i assume "i < length (take 8 (?l @ replicate 7 False))"
    then have i: "i < 8" by simp
    show "take 8 (?l @ replicate 7 False) ! i = byte_bits w ! i"
    proof (cases "i < k")
      case True
      then show ?thesis using i by (simp add: nth_append byte_bits_def)
    next
      case False
      then have "7 - i < 8 - k" using i assms(2) by simp
      moreover have "i - k < min (8 - k) 7" using False i assms(1) by simp
      ultimately show ?thesis
        using assms(3) [of "7 - i"] False i by (simp add: nth_append byte_bits_def)
    qed
  qed
  moreover have "drop 8 ?l = []" using assms(2) by simp
  ultimately show ?thesis using ne by (subst pack_bits.simps) simp
qed

lemma pack_ebits:
  assumes "wf_enc x"
  shows "pack_bits (ebits x) = encoded_data x"
proof (cases "encoded_data x = []")
  case True
  then show ?thesis by (simp add: ebits_empty)
next
  case False
  then obtain ds w where d: "encoded_data x = ds @ [w]"
    by (cases "encoded_data x" rule: rev_cases) auto
  from assms False d have k: "1 \<le> encoder_state.bit_index x" "encoder_state.bit_index x \<le> 8"
    and z: "\<And>i. i < 8 - encoder_state.bit_index x \<Longrightarrow> \<not> bit w i"
    by (simp_all add: wf_enc_def)
  have "ebits x = all_bits ds @ map (\<lambda>i. bit w (7 - i)) [0..<encoder_state.bit_index x]"
    by (rule ebits_snoc [OF d refl k(2)])
  then show ?thesis by (simp add: pack_all_bits pack_bits_last [OF k z] d)
qed

text \<open>
  The encoder in the specification's words, emitting a list of bits: on shift it emits
  the common top bit of \<open>low\<close> and \<open>high\<close>, then as many copies of the complemented bit
  as there are pending underflows, and resets the count; on underflow it increments
  the count.
\<close>

record bit_encoder =
  emitted :: "bool list"
  pending :: nat

definition spec_shift :: "bit_encoder coder \<Rightarrow> error + bit_encoder" where
  "spec_shift c =
     Inr \<lparr>emitted = emitted (sub c)
                 @ bit (low c) 63 # replicate (pending (sub c)) (\<not> bit (low c) 63),
          pending = 0\<rparr>"

definition spec_underflow :: "bit_encoder coder \<Rightarrow> error + bit_encoder" where
  "spec_underflow c = Inr ((sub c)\<lparr>pending := pending (sub c) + 1\<rparr>)"

definition emitted_bits :: "(int list \<times> nat) list \<Rightarrow> error + bool list" where
  "emitted_bits ps =
     (case update_all spec_shift spec_underflow ps (coder_init \<lparr>emitted = [], pending = 0\<rparr>) of
        Inl e \<Rightarrow> Inl e
      | Inr c \<Rightarrow> Inr (emitted (sub c)))"

definition refines :: "encoder \<Rightarrow> bit_encoder coder \<Rightarrow> bool" where
  "refines e c \<longleftrightarrow>
     low c = low e \<and> high c = high e \<and> emitted (sub c) = ebits (sub e) \<and>
     pending (sub c) = num_underflow (sub e) \<and> wf_enc (sub e) \<and> in_word e"

lemma refines_same: "refines e c \<Longrightarrow> low c = low e \<and> high c = high e"
  by (simp add: refines_def)

lemma refines_shift:
  assumes "refines e c" "(low e XOR high e) AND half_range = 0"
  shows "\<exists>x1 x2. Encoder_shift e = Inr x1 \<and> spec_shift c = Inr x2
           \<and> refines (shift_next e x1) (shift_next c x2)"
proof -
  from assms(1) have lh: "low c = low e" "high c = high e"
    and em: "emitted (sub c) = ebits (sub e)" and pe: "pending (sub c) = num_underflow (sub e)"
    and we: "wf_enc (sub e)" and iw: "in_word e"
    by (simp_all add: refines_def)
  from iw have b: "0 \<le> low e" "low e < 2 ^ 64" by (auto simp: in_word_def consts_simps)
  have t: "bit (low e) 63 \<longleftrightarrow> 2 ^ 63 \<le> low e" by (rule bit63_iff [OF b])
  from Encoder_shift_ok [OF we b] obtain x1 where x1: "Encoder_shift e = Inr x1"
    and eb: "ebits x1 = ebits (sub e)
        @ (2 ^ 63 \<le> low e) # replicate (num_underflow (sub e)) (\<not> 2 ^ 63 \<le> low e)"
    and w1: "wf_enc x1" and u1: "num_underflow x1 = 0"
    by blast
  define x2 where "x2 = \<lparr>emitted = emitted (sub c)
      @ bit (low c) 63 # replicate (pending (sub c)) (\<not> bit (low c) 63), pending = 0\<rparr>"
  have x2: "spec_shift c = Inr x2" by (simp add: spec_shift_def x2_def)
  have "refines (shift_next e x1) (shift_next c x2)"
    unfolding refines_def using in_word_shift_next [OF iw assms(2), of x1] w1 u1 lh
    by (simp add: shift_next_def x2_def eb em pe t)
  with x1 x2 show ?thesis by blast
qed

lemma refines_underflow:
  assumes "refines e c \<and> straddles e" "(low e AND NOT (high e)) AND quarter_range \<noteq> 0"
  shows "\<exists>x1 x2. Encoder_underflow e = Inr x1 \<and> spec_underflow c = Inr x2
           \<and> (refines (underflow_next e x1) (underflow_next c x2)
                \<and> straddles (underflow_next e x1))"
proof -
  from assms(1) have lh: "low c = low e" "high c = high e"
    and em: "emitted (sub c) = ebits (sub e)" and pe: "pending (sub c) = num_underflow (sub e)"
    and we: "wf_enc (sub e)" and st: "straddles e"
    by (simp_all add: refines_def)
  define x1 where "x1 = (sub e)\<lparr>num_underflow := num_underflow (sub e) + 1\<rparr>"
  define x2 where "x2 = (sub c)\<lparr>pending := pending (sub c) + 1\<rparr>"
  have x1: "Encoder_underflow e = Inr x1" by (simp add: Encoder_underflow_def x1_def)
  have x2: "spec_underflow c = Inr x2" by (simp add: spec_underflow_def x2_def)
  note su = straddles_underflow_next(1) [OF st assms(2), of x1]
  then have "in_word (underflow_next e x1)"
    by (auto simp: straddles_def in_word_def consts_simps)
  then have "refines (underflow_next e x1) (underflow_next c x2)"
    unfolding refines_def using we lh
    by (simp add: underflow_next_def x1_def x2_def em pe)
  with x1 x2 su show ?thesis by blast
qed

lemma refines_update:
  assumes "codeable (cum_freqs, s)" "coder_inv e" "refines e c"
  shows "\<exists>e' c'. encode_symbol e cum_freqs s = Inr e'
           \<and> update spec_shift spec_underflow cum_freqs s c = Inr c'
           \<and> refines e' c' \<and> coder_inv e'"
proof -
  from assms(1) have cd: "wf_cdf cum_freqs" "in_support cum_freqs s"
    "last cum_freqs \<le> quarter_range + 2"
    by (simp_all add: codeable_def)
  have pre: "cum_freqs \<noteq> []" "s < length cum_freqs" "last cum_freqs \<noteq> 0"
    using cd by (auto simp: wf_cdf_def in_support_def)
  have r2: "refines (narrow cum_freqs s e) (narrow cum_freqs s c)"
    using assms(3) narrow_in_word(1) [OF assms(2) cd]
    by (simp add: refines_def narrow_def)
  have "\<exists>c1' c2'. shift_loop Encoder_shift (narrow cum_freqs s e) = Inr c1'
      \<and> shift_loop spec_shift (narrow cum_freqs s c) = Inr c2'
      \<and> refines c1' c2' \<and> (low c1' XOR high c1') AND half_range \<noteq> 0"
  proof (rule shift_loop_sim [where R = refines])
    show "refines (narrow cum_freqs s e) (narrow cum_freqs s c)" by (rule r2)
  next
    fix c1 c2 assume "refines c1 c2"
    then show "low c2 = low c1 \<and> high c2 = high c1" by (rule refines_same)
  next
    fix c1 c2 assume "refines c1 c2" "(low c1 XOR high c1) AND half_range = 0"
    then show "\<exists>x1 x2. Encoder_shift c1 = Inr x1 \<and> spec_shift c2 = Inr x2
        \<and> refines (shift_next c1 x1) (shift_next c2 x2)"
      by (rule refines_shift)
  qed
  then obtain e3 c3 where e3: "shift_loop Encoder_shift (narrow cum_freqs s e) = Inr e3"
    and c3: "shift_loop spec_shift (narrow cum_freqs s c) = Inr c3"
    and r3: "refines e3 c3" and x3: "(low e3 XOR high e3) AND half_range \<noteq> 0"
    by blast
  have st3: "straddles e3" using r3 x3 by (intro in_word_exit) (simp_all add: refines_def)
  have "\<exists>c1' c2'. underflow_loop Encoder_underflow e3 = Inr c1'
      \<and> underflow_loop spec_underflow c3 = Inr c2'
      \<and> (refines c1' c2' \<and> straddles c1')
      \<and> (low c1' AND NOT (high c1')) AND quarter_range = 0"
  proof (rule underflow_loop_sim [where R = "\<lambda>c1 c2. refines c1 c2 \<and> straddles c1"])
    show "refines e3 c3 \<and> straddles e3" using r3 st3 by simp
  next
    fix c1 c2 assume "refines c1 c2 \<and> straddles c1"
    then show "low c2 = low c1 \<and> high c2 = high c1" using refines_same by blast
  next
    fix c1 c2
    assume "refines c1 c2 \<and> straddles c1" "(low c1 AND NOT (high c1)) AND quarter_range \<noteq> 0"
    then show "\<exists>x1 x2. Encoder_underflow c1 = Inr x1 \<and> spec_underflow c2 = Inr x2
        \<and> (refines (underflow_next c1 x1) (underflow_next c2 x2)
             \<and> straddles (underflow_next c1 x1))"
      by (rule refines_underflow)
  qed
  then obtain e4 c4 where e4: "underflow_loop Encoder_underflow e3 = Inr e4"
    and c4: "underflow_loop spec_underflow c3 = Inr c4"
    and r4: "refines e4 c4" and st4: "straddles e4"
    and x4: "(low e4 AND NOT (high e4)) AND quarter_range = 0"
    by blast
  have "encode_symbol e cum_freqs s = Inr e4"
    unfolding encode_symbol_def update_unfold [OF pre] e3 using e4 by simp
  moreover have "update spec_shift spec_underflow cum_freqs s c = Inr c4"
    unfolding update_unfold [OF pre] c3 using c4 by simp
  moreover have "coder_inv e4" by (rule straddles_exit [OF st4 x4])
  ultimately show ?thesis using r4 by blast
qed

lemma refines_run:
  assumes "list_all codeable ps" "coder_inv e" "refines e c"
  shows "\<exists>e' c'. encode_all e ps = Inr e' \<and> update_all spec_shift spec_underflow ps c = Inr c'
           \<and> refines e' c'"
  using assms
proof (induction ps arbitrary: e c)
  case Nil
  then show ?case by simp
next
  case (Cons p ps)
  obtain cf s where p: "p = (cf, s)" by (cases p)
  from Cons.prems(1) have c1: "codeable (cf, s)" and cs: "list_all codeable ps"
    by (simp_all add: p)
  from refines_update [OF c1 Cons.prems(2,3)] obtain e1 c1 where
    s1: "encode_symbol e cf s = Inr e1" "update spec_shift spec_underflow cf s c = Inr c1"
    "refines e1 c1" "coder_inv e1" by blast
  from Cons.IH [OF cs s1(4,3)] obtain e' c' where
    "encode_all e1 ps = Inr e'" "update_all spec_shift spec_underflow ps c1 = Inr c'"
    "refines e' c'" by blast
  then show ?case using s1(1,2) by (simp add: p)
qed

lemma initial_refines: "refines Encoder_init (coder_init \<lparr>emitted = [], pending = 0\<rparr>)"
proof -
  have "in_word Encoder_init"
    by (simp add: Encoder_init_def coder_init_def in_word_def consts_simps)
  moreover have "low (coder_init \<lparr>emitted = [], pending = 0\<rparr>) = low Encoder_init"
    "high (coder_init \<lparr>emitted = [], pending = 0\<rparr>) = high Encoder_init"
    "num_underflow (sub Encoder_init) = 0"
    by (simp_all add: Encoder_init_def coder_init_def)
  ultimately show ?thesis
    unfolding refines_def using Encoder_init_wf(1,2) by (simp add: coder_init_def)
qed

lemma encode_packs_emitted_bits:
  assumes "list_all codeable ps"
  shows "\<exists>bs e e'. emitted_bits ps = Inr bs
    \<and> encode_all Encoder_init ps = Inr e \<and> ebits (sub e) = bs
    \<and> finish e = Inr e' \<and> ebits (sub e') = bs @ [True]
    \<and> get_encoded e' = pack_bits (bs @ [True])
    \<and> encode ps = Inr (pack_bits (bs @ [True]))"
proof -
  from refines_run [OF assms Encoder_init_inv initial_refines] obtain e c where
    e: "encode_all Encoder_init ps = Inr e"
    and c: "update_all spec_shift spec_underflow ps (coder_init \<lparr>emitted = [], pending = 0\<rparr>)
        = Inr c"
    and r: "refines e c" by blast
  from r have we: "wf_enc (sub e)" and em: "emitted (sub c) = ebits (sub e)"
    by (simp_all add: refines_def)
  from finish_ok [OF we] obtain e' where
    e': "finish e = Inr e'" "ebits (sub e') = ebits (sub e) @ [True]" "wf_enc (sub e')"
    by blast
  have g: "get_encoded e' = pack_bits (emitted (sub c) @ [True])"
    using pack_ebits [OF e'(3)] by (simp add: get_encoded_def e'(2) em)
  then have "encode ps = Inr (pack_bits (emitted (sub c) @ [True]))"
    by (simp add: encode_def e e'(1))
  moreover have "emitted_bits ps = Inr (emitted (sub c))" by (simp add: emitted_bits_def c)
  ultimately show ?thesis using e e' g em by auto
qed

text \<open>
  Claim C4 (coder state invariant), as amended. Starting from \<open>low = 0\<close> and
  \<open>high = 2^64 - 1\<close> (\<open>coder_init\<close>), after every sequence of updates, on the encoder
  or the decoder (the hooks are arbitrary), with well-formed CDFs, in-support symbols and
  totals of at most \<open>quarter_range + 2 = 2^62 + 2\<close>, the state has \<open>low \<le> high\<close>, the
  most significant bits of \<open>low\<close> and \<open>high\<close> differ and the E3 condition does not hold.
  The bound on the total is needed: see \<open>coder_state_invariant_counterexample\<close>.
\<close>

theorem coder_state_invariant:
  assumes "list_all codeable ps"
    and "update_all shift underflow ps (coder_init x) = Inr c"
  shows "low c \<le> high c
    \<and> (low c XOR high c) AND half_range \<noteq> 0
    \<and> (low c AND NOT (high c)) AND quarter_range = 0"
proof -
  from assms(1) have "\<forall>p \<in> set ps. codeable p" by (simp add: list_all_iff)
  with assms(2) coder_init_inv have "coder_inv c" by (rule update_all_coder_inv)
  then show ?thesis by (simp add: coder_inv_conseq)
qed

theorem coder_state_invariant_witness:
  "list_all codeable [([3, 5, 8], 0), ([1, 2, 10], 2)]
   \<and> update_all Encoder_shift Encoder_underflow [([3, 5, 8], 0), ([1, 2, 10], 2)]
        (coder_init \<lparr>encoded_data = [], bit_index = 8, num_underflow = 0\<rparr>)
      = Inr \<lparr>low = 2767011611056432742, high = 13835058055282163711,
              sub = \<lparr>encoded_data = [0], bit_index = 1, num_underflow = 0\<rparr>\<rparr>
   \<and> (2767011611056432742 :: int) \<le> 13835058055282163711
   \<and> (2767011611056432742 XOR 13835058055282163711) AND half_range \<noteq> 0
   \<and> (2767011611056432742 AND NOT 13835058055282163711) AND quarter_range = 0"
proof -
  have h: "list_all codeable [([3, 5, 8], 0), ([1, 2, 10], 2)]"
    by (simp add: codeable_def wf_cdf_def in_support_def sym_low_def consts_simps)
  have r: "update_all Encoder_shift Encoder_underflow [([3, 5, 8], 0), ([1, 2, 10], 2)]
        (coder_init \<lparr>encoded_data = [], bit_index = 8, num_underflow = 0\<rparr>)
      = Inr \<lparr>low = 2767011611056432742, high = 13835058055282163711,
              sub = \<lparr>encoded_data = [0], bit_index = 1, num_underflow = 0\<rparr>\<rparr>"
    by code_simp
  from coder_state_invariant [OF h r] h r show ?thesis by simp
qed

theorem coder_state_invariant_counterexample:
  "wf_cdf [1, 2 ^ 65] \<and> in_support [1, 2 ^ 65] 0
   \<and> update Encoder_shift Encoder_underflow [1, 2 ^ 65] 0 Encoder_init
      = Inr \<lparr>low = 0, high = - 1,
              sub = \<lparr>encoded_data = [], bit_index = 8, num_underflow = 0\<rparr>\<rparr>
   \<and> \<not> (0 :: int) \<le> - 1"
proof -
  have "wf_cdf [1, 2 ^ 65] \<and> in_support [1, 2 ^ 65] 0"
    by (simp add: wf_cdf_def in_support_def sym_low_def)
  moreover have "update Encoder_shift Encoder_underflow [1, 2 ^ 65] 0 Encoder_init
      = Inr \<lparr>low = 0, high = - 1,
              sub = \<lparr>encoded_data = [], bit_index = 8, num_underflow = 0\<rparr>\<rparr>"
    by code_simp
  ultimately show ?thesis by simp
qed

text \<open>
  Claim C6 (decoder symbol selection), as amended. For every decoder state with
  \<open>low \<le> code \<le> high\<close> and a bit index within a byte, and every well-formed CDF that is
  passed as a list of Python ints below \<open>2^63\<close> or as a floating-point array with
  integral entries of at most \<open>2^53\<close>, \<open>decode_symbol\<close> returns, and the symbol it
  returns is the smallest index \<open>s\<close> whose cumulative frequency is strictly greater than
  \<open>value = ((code - low + 1) * total - 1) div range\<close>: every earlier entry, ties
  included, is at most \<open>value\<close>. Outside these bounds \<open>np.searchsorted\<close> compares
  rounded numbers: see \<open>decode_symbol_upper_bound_counterexample\<close>.
\<close>

theorem decode_symbol_upper_bound:
  assumes "low c \<le> code (sub c)" "code (sub c) \<le> high c"
    and "decoder_state.bit_index (sub c) < 8"
    and "wf_cdf (elems cum_freqs)" "compared_exactly cum_freqs"
  shows "\<exists>s c'. decode_symbol c cum_freqs = Inr (s, c')
           \<and> s < length (elems cum_freqs)
           \<and> ((code (sub c) - low c + 1) * last (elems cum_freqs) - 1) div (high c - low c + 1)
                < elems cum_freqs ! s
           \<and> (\<forall>j. j < s \<longrightarrow> elems cum_freqs ! j
                \<le> ((code (sub c) - low c + 1) * last (elems cum_freqs) - 1)
                    div (high c - low c + 1))"
  using decode_symbol_selects [OF assms] unfolding decode_value_def .

theorem decode_symbol_upper_bound_witness:
  "\<exists>c. Decoder_init [0x5A, 0x3C] = Inr c
     \<and> low c \<le> code (sub c) \<and> code (sub c) \<le> high c
     \<and> decoder_state.bit_index (sub c) < 8
     \<and> wf_cdf (elems (FloatArray [2, 2, 8])) \<and> compared_exactly (FloatArray [2, 2, 8])
     \<and> (\<exists>s c'. decode_symbol c (FloatArray [2, 2, 8]) = Inr (s, c')
           \<and> s < length (elems (FloatArray [2, 2, 8]))
           \<and> ((code (sub c) - low c + 1) * last (elems (FloatArray [2, 2, 8])) - 1)
                div (high c - low c + 1)
               < elems (FloatArray [2, 2, 8]) ! s
           \<and> (\<forall>j. j < s \<longrightarrow> elems (FloatArray [2, 2, 8]) ! j
                \<le> ((code (sub c) - low c + 1) * last (elems (FloatArray [2, 2, 8])) - 1)
                    div (high c - low c + 1)))"
proof -
  from Decoder_init_total obtain c where c: "Decoder_init [0x5A, 0x3C] = Inr c" by blast
  from Decoder_init_inv [OF c] have a: "low c \<le> code (sub c)" and b: "code (sub c) \<le> high c"
    and k: "decoder_state.bit_index (sub c) < 8"
    by (simp_all add: dec_inv_def)
  have w: "wf_cdf (elems (FloatArray [2, 2, 8]))" by (simp add: wf_cdf_def)
  have x: "compared_exactly (FloatArray [2, 2, 8])" by simp
  from decode_symbol_upper_bound [OF a b k w x] c a b k w x show ?thesis by blast
qed

theorem decode_symbol_upper_bound_counterexample:
  "Decoder_init [255, 255, 255, 255, 255, 255, 224, 0]
     = Inr \<lparr>low = 0, high = 18446744073709551615,
             sub = \<lparr>input = [255, 255, 255, 255, 255, 255, 224, 0], byte_index = 8,
                    bit_index = 0, code = 18446744073709543424\<rparr>\<rparr>
   \<and> (0 :: int) \<le> 18446744073709543424
   \<and> (18446744073709543424 :: int) \<le> 18446744073709551615
   \<and> wf_cdf [1, 2 ^ 63 + 1, 2 ^ 63 + 4096]
   \<and> ((18446744073709543424 - 0 + 1) * last [1, 2 ^ 63 + 1, 2 ^ 63 + 4096] - 1)
        div (18446744073709551615 - 0 + 1) = (2 ^ 63 :: int)
   \<and> (2 ^ 63 :: int) < [1, 2 ^ 63 + 1, 2 ^ 63 + 4096] ! 1
   \<and> decode [255, 255, 255, 255, 255, 255, 224, 0] [PyList [1, 2 ^ 63 + 1, 2 ^ 63 + 4096]]
       = Inr [2]"
proof -
  have "Decoder_init [255, 255, 255, 255, 255, 255, 224, 0]
     = Inr \<lparr>low = 0, high = 18446744073709551615,
             sub = \<lparr>input = [255, 255, 255, 255, 255, 255, 224, 0], byte_index = 8,
                    bit_index = 0, code = 18446744073709543424\<rparr>\<rparr>"
    by code_simp
  moreover have "wf_cdf [1, 2 ^ 63 + 1, 2 ^ 63 + 4096]" by (simp add: wf_cdf_def)
  moreover have
    "decode [255, 255, 255, 255, 255, 255, 224, 0] [PyList [1, 2 ^ 63 + 1, 2 ^ 63 + 4096]]
       = Inr [2]"
    by code_simp
  ultimately show ?thesis by simp
qed

text \<open>
  Claim C10 (decoder totality on arbitrary input), as amended. For every input byte
  sequence the \<open>Decoder\<close> constructor succeeds, and for every sequence of CDFs that are
  strictly increasing with positive entries, each passed as a list of Python ints below
  \<open>2^63\<close> or as a floating-point array with integral entries of at most \<open>2^53\<close>,
  decoding never fails: every returned symbol is an index into its CDF (so
  \<open>cum_freqs[symbol]\<close> and \<open>cum_freqs[symbol - 1]\<close> are in bounds), and the invariant
  \<open>low \<le> code \<le> high\<close> holds afterwards, hence after every prefix. With larger entries
  the search can return the length of the CDF: see \<open>decoder_never_fails_counterexample\<close>.
\<close>

theorem decoder_never_fails:
  assumes "list_all exact_strict_cdf cfs"
  shows "\<exists>d0 ss d. Decoder_init data = Inr d0
           \<and> decode_all d0 cfs = Inr (ss, d)
           \<and> decode data cfs = Inr ss
           \<and> list_all2 (\<lambda>s cf. s < length (elems cf)) ss cfs
           \<and> low d \<le> code (sub d) \<and> code (sub d) \<le> high d"
proof -
  from Decoder_init_total obtain d0 where d0: "Decoder_init data = Inr d0" by blast
  from assms have "\<forall>cf \<in> set cfs. wf_cdf (elems cf) \<and> compared_exactly cf"
    by (simp add: list_all_iff exact_strict_cdf_def strict_cdf_wf)
  from decode_all_total [OF Decoder_init_inv [OF d0] this]
  obtain ss d where r: "decode_all d0 cfs = Inr (ss, d)"
    "list_all2 (\<lambda>s cf. s < length (elems cf)) ss cfs" "dec_inv d"
    by blast
  have "decode data cfs = Inr ss" by (simp add: decode_def d0 r(1))
  with d0 r show ?thesis by (auto simp: dec_inv_def)
qed

theorem decoder_never_fails_witness:
  "list_all exact_strict_cdf [PyList [3, 5, 8], FloatArray [1, 2, 3, 4]]
   \<and> (\<exists>d0 ss d. Decoder_init [0x5A, 0x3C] = Inr d0
         \<and> decode_all d0 [PyList [3, 5, 8], FloatArray [1, 2, 3, 4]] = Inr (ss, d)
         \<and> decode [0x5A, 0x3C] [PyList [3, 5, 8], FloatArray [1, 2, 3, 4]] = Inr ss
         \<and> list_all2 (\<lambda>s cf. s < length (elems cf)) ss
              [PyList [3, 5, 8], FloatArray [1, 2, 3, 4]]
         \<and> low d \<le> code (sub d) \<and> code (sub d) \<le> high d)"
proof -
  have h: "list_all exact_strict_cdf [PyList [3, 5, 8], FloatArray [1, 2, 3, 4]]"
    by (simp add: exact_strict_cdf_def strict_cdf_def)
  from decoder_never_fails [OF h, of "[0x5A, 0x3C]"] h show ?thesis by blast
qed

theorem decoder_never_fails_counterexample:
  "strict_cdf [1, 2 ^ 63 + 2]
   \<and> decode [255, 255, 255, 255, 255, 255, 255, 255] [PyList [1, 2 ^ 63 + 2]] = Inl IndexError
   \<and> strict_cdf [1, 2 ^ 60]
   \<and> decode [255, 255, 255, 255, 255, 255, 255, 255] [FloatArray [1, 2 ^ 60]] = Inl IndexError"
proof -
  have "strict_cdf [1, 2 ^ 63 + 2]" "strict_cdf [1, 2 ^ 60]"
    by (simp_all add: strict_cdf_def)
  moreover have
    "decode [255, 255, 255, 255, 255, 255, 255, 255] [PyList [1, 2 ^ 63 + 2]] = Inl IndexError"
    by code_simp
  moreover have
    "decode [255, 255, 255, 255, 255, 255, 255, 255] [FloatArray [1, 2 ^ 60]] = Inl IndexError"
    by code_simp
  ultimately show ?thesis by simp
qed

text \<open>
  Claim C1 (coder independence round-trip), as amended. For every finite sequence of
  (CDF, symbol) pairs in which each CDF is a non-decreasing vector of non-negative integers
  with positive last entry, passed as a list of Python ints with last entry at most
  \<open>2^62 + 2\<close> or as a floating-point array with last entry at most \<open>2^53\<close>, and each
  symbol is in the support of its CDF, encoding every symbol, finishing, constructing a
  decoder from the encoded bytes and decoding with the same CDFs succeeds and yields
  exactly the original symbols. Without the bounds the round-trip fails: see
  \<open>coder_roundtrip_counterexample\<close>.
\<close>

theorem coder_roundtrip:
  assumes "list_all codeable_as ps"
  shows "\<exists>bs. encode (map int_values ps) = Inr bs \<and> decode bs (map fst ps) = Inr (map snd ps)"
  using assms by (rule roundtrip)

theorem coder_roundtrip_witness:
  "list_all codeable_as
     [(PyList [3, 5, 8], 0), (FloatArray [1, 2, 10], 2), (PyList [4, 5], 0),
      (FloatArray [1, 2, 3], 1), (PyList [1, 5, 100], 0)]
   \<and> encode (map int_values
        [(PyList [3, 5, 8], 0), (FloatArray [1, 2, 10], 2), (PyList [4, 5], 0),
         (FloatArray [1, 2, 3], 1), (PyList [1, 5, 100], 0)]) = Inr [39, 192]
   \<and> decode [39, 192]
        [PyList [3, 5, 8], FloatArray [1, 2, 10], PyList [4, 5], FloatArray [1, 2, 3],
         PyList [1, 5, 100]]
       = Inr [0, 2, 0, 1, 0]"
proof -
  have h: "list_all codeable_as
     [(PyList [3, 5, 8], 0), (FloatArray [1, 2, 10], 2), (PyList [4, 5], 0),
      (FloatArray [1, 2, 3], 1), (PyList [1, 5, 100], 0)]"
    by (simp add: codeable_as_def wf_cdf_def in_support_def sym_low_def consts_simps)
  have e: "encode (map int_values
        [(PyList [3, 5, 8], 0), (FloatArray [1, 2, 10], 2), (PyList [4, 5], 0),
         (FloatArray [1, 2, 3], 1), (PyList [1, 5, 100], 0)]) = Inr [39, 192]"
    by code_simp
  from coder_roundtrip [OF h] show ?thesis unfolding e using h by simp
qed

theorem coder_roundtrip_counterexample:
  "wf_cdf [1, 2 ^ 65] \<and> in_support [1, 2 ^ 65] 0
   \<and> encode [([1, 2 ^ 65], 0)] = Inr [128]
   \<and> decode [128] [PyList [1, 2 ^ 65]] = Inr [1]
   \<and> [1] \<noteq> [0 :: nat]
   \<and> list_all codeable [([1, 2 ^ 60], 1), ([2 ^ 55 - 1, 2 ^ 55], 1)]
   \<and> encode [([1, 2 ^ 60], 1), ([2 ^ 55 - 1, 2 ^ 55], 1)]
       = Inr [255, 255, 255, 255, 255, 255, 255]
   \<and> decode [255, 255, 255, 255, 255, 255, 255] [FloatArray [1, 2 ^ 60], PyList [2 ^ 55 - 1, 2 ^ 55]]
       = Inl IndexError"
proof -
  have "wf_cdf [1, 2 ^ 65] \<and> in_support [1, 2 ^ 65] 0"
    by (simp add: wf_cdf_def in_support_def sym_low_def)
  moreover have "encode [([1, 2 ^ 65], 0)] = Inr [128]" by code_simp
  moreover have "decode [128] [PyList [1, 2 ^ 65]] = Inr [1]" by code_simp
  moreover have "list_all codeable [([1, 2 ^ 60], 1), ([2 ^ 55 - 1, 2 ^ 55], 1)]"
    by (simp add: codeable_def wf_cdf_def in_support_def sym_low_def consts_simps)
  moreover have "encode [([1, 2 ^ 60], 1), ([2 ^ 55 - 1, 2 ^ 55], 1)]
       = Inr [255, 255, 255, 255, 255, 255, 255]"
    by code_simp
  moreover have
    "decode [255, 255, 255, 255, 255, 255, 255] [FloatArray [1, 2 ^ 60], PyList [2 ^ 55 - 1, 2 ^ 55]]
       = Inl IndexError"
    by code_simp
  ultimately show ?thesis by simp
qed

text \<open>
  Claim C7 (finalization and output format). After the last encoded symbol, \<open>finish\<close>
  succeeds and appends exactly one \<open>1\<close> bit to the bits in the buffer; the bytes
  returned are exactly those bits packed most significant bit first, the last byte padded
  with zero bits (\<open>pack_bits\<close>); and for the sequences the coder is defined on
  (\<open>codeable\<close>) the bits in the buffer are exactly the bits the specification's encoder
  emits (\<open>emitted_bits\<close>), so that the output carries no header, length prefix, checksum
  or magic.
\<close>

theorem encoder_output_format:
  assumes "encode_all Encoder_init ps = Inr e"
  shows "\<exists>e'. finish e = Inr e'
    \<and> ebits (sub e') = ebits (sub e) @ [True]
    \<and> get_encoded e' = pack_bits (ebits (sub e) @ [True])
    \<and> encode ps = Inr (pack_bits (ebits (sub e) @ [True]))
    \<and> (list_all codeable ps \<longrightarrow> emitted_bits ps = Inr (ebits (sub e)))"
proof -
  have we: "wf_enc (sub e)" by (rule encode_all_wf [OF assms Encoder_init_wf(1)])
  from finish_ok [OF we] obtain e' where
    e': "finish e = Inr e'" "ebits (sub e') = ebits (sub e) @ [True]" "wf_enc (sub e')"
    by blast
  have g: "get_encoded e' = pack_bits (ebits (sub e) @ [True])"
    using pack_ebits [OF e'(3)] by (simp add: get_encoded_def e'(2))
  then have en: "encode ps = Inr (pack_bits (ebits (sub e) @ [True]))"
    by (simp add: encode_def assms e'(1))
  have "emitted_bits ps = Inr (ebits (sub e))" if "list_all codeable ps"
    using encode_packs_emitted_bits [OF that] assms by auto
  with e'(1,2) g en show ?thesis by blast
qed

theorem encoder_output_format_witness:
  "encode_all Encoder_init
      [([3, 5, 8], 0), ([1, 2, 10], 2), ([4, 5], 0), ([1, 2, 3], 1), ([1, 5, 100], 0)]
     = Inr \<lparr>low = 6640827866535438336, high = 14196614239126870655,
             sub = \<lparr>encoded_data = [39, 128], bit_index = 1, num_underflow = 0\<rparr>\<rparr>
   \<and> list_all codeable
        [([3, 5, 8], 0), ([1, 2, 10], 2), ([4, 5], 0), ([1, 2, 3], 1), ([1, 5, 100], 0)]
   \<and> ebits \<lparr>encoded_data = [39, 128], bit_index = 1, num_underflow = 0\<rparr>
       = [False, False, True, False, False, True, True, True, True]
   \<and> emitted_bits [([3, 5, 8], 0), ([1, 2, 10], 2), ([4, 5], 0), ([1, 2, 3], 1), ([1, 5, 100], 0)]
       = Inr [False, False, True, False, False, True, True, True, True]
   \<and> encode [([3, 5, 8], 0), ([1, 2, 10], 2), ([4, 5], 0), ([1, 2, 3], 1), ([1, 5, 100], 0)]
       = Inr (pack_bits [False, False, True, False, False, True, True, True, True, True])
   \<and> pack_bits [False, False, True, False, False, True, True, True, True, True] = [39, 192]"
proof -
  have r: "encode_all Encoder_init
      [([3, 5, 8], 0), ([1, 2, 10], 2), ([4, 5], 0), ([1, 2, 3], 1), ([1, 5, 100], 0)]
     = Inr \<lparr>low = 6640827866535438336, high = 14196614239126870655,
             sub = \<lparr>encoded_data = [39, 128], bit_index = 1, num_underflow = 0\<rparr>\<rparr>"
    by code_simp
  have h: "list_all codeable
      [([3, 5, 8], 0), ([1, 2, 10], 2), ([4, 5], 0), ([1, 2, 3], 1), ([1, 5, 100], 0)]"
    by (simp add: codeable_def wf_cdf_def in_support_def sym_low_def consts_simps)
  have b: "ebits \<lparr>encoded_data = [39, 128], bit_index = 1, num_underflow = 0\<rparr>
       = [False, False, True, False, False, True, True, True, True]"
    by code_simp
  have p: "pack_bits [False, False, True, False, False, True, True, True, True, True] = [39, 192]"
    by code_simp
  from encoder_output_format [OF r] h obtain e' where
    "encode [([3, 5, 8], 0), ([1, 2, 10], 2), ([4, 5], 0), ([1, 2, 3], 1), ([1, 5, 100], 0)]
       = Inr (pack_bits
           (ebits \<lparr>encoded_data = [39, 128], bit_index = 1, num_underflow = 0\<rparr> @ [True]))"
    and "emitted_bits
        [([3, 5, 8], 0), ([1, 2, 10], 2), ([4, 5], 0), ([1, 2, 3], 1), ([1, 5, 100], 0)]
       = Inr (ebits \<lparr>encoded_data = [39, 128], bit_index = 1, num_underflow = 0\<rparr>)"
    by auto
  then show ?thesis unfolding b using r h p by simp
qed

definition BASE64 :: "byte list" where
  "BASE64 = map of_char ''ABCDEFGHIJKLMNOPQRSTUVWXYZabcdefghijklmnopqrstuvwxyz0123456789+/''"

definition BASE64_PAD :: byte where
  "BASE64_PAD = of_char CHR ''=''"

text \<open>
  Modelled from the Python standard library, which is not part of the repository:
  \<open>base64.b64encode\<close> (\<open>binascii.b2a_base64\<close> without the newline) and
  \<open>base64.b64decode\<close> with its default \<open>validate=False\<close>
  (\<open>binascii.a2b_base64\<close> in non-strict mode: characters outside the alphabet are
  skipped, a pad sequence that completes a quad ends the data, leftover characters are
  an error).
\<close>

definition b2a :: "byte \<Rightarrow> byte" where
  "b2a v = BASE64 ! unat v"

definition sextet0 :: "byte \<Rightarrow> byte" where
  "sextet0 a = drop_bit 2 a"

definition sextet1 :: "byte \<Rightarrow> byte \<Rightarrow> byte" where
  "sextet1 a b = push_bit 4 (a AND 3) OR drop_bit 4 b"

definition sextet2 :: "byte \<Rightarrow> byte \<Rightarrow> byte" where
  "sextet2 b c = push_bit 2 (b AND 15) OR drop_bit 6 c"

definition sextet3 :: "byte \<Rightarrow> byte" where
  "sextet3 c = c AND 63"

fun b64encode :: "byte list \<Rightarrow> byte list" where
  "b64encode [] = []"
| "b64encode [a] = [b2a (sextet0 a), b2a (sextet1 a 0), BASE64_PAD, BASE64_PAD]"
| "b64encode [a, b] = [b2a (sextet0 a), b2a (sextet1 a b), b2a (sextet2 b 0), BASE64_PAD]"
| "b64encode (a # b # c # rest) =
     [b2a (sextet0 a), b2a (sextet1 a b), b2a (sextet2 b c), b2a (sextet3 c)] @ b64encode rest"

definition table_a2b :: "byte \<Rightarrow> byte option" where
  "table_a2b ch = map_of (zip BASE64 (map of_nat [0..<64])) ch"

fun a2b_base64 :: "byte list \<Rightarrow> nat \<Rightarrow> byte \<Rightarrow> nat \<Rightarrow> error + byte list" where
  "a2b_base64 [] quad_pos leftchar pads =
     (if quad_pos \<noteq> 0 then Inl (BinasciiError ''Incorrect padding'') else Inr [])"
| "a2b_base64 (ch # rest) quad_pos leftchar pads =
     (if ch = BASE64_PAD then
        (if quad_pos \<ge> 2 then
           (if quad_pos + (pads + 1) \<ge> 4 then Inr []
            else a2b_base64 rest quad_pos leftchar (pads + 1))
         else a2b_base64 rest quad_pos leftchar pads)
      else
        (case table_a2b ch of
           None \<Rightarrow> a2b_base64 rest quad_pos leftchar pads
         | Some v \<Rightarrow>
             (if quad_pos = 0 then a2b_base64 rest 1 v 0
              else if quad_pos = 1 then
                (case a2b_base64 rest 2 (v AND 15) 0 of
                   Inl e \<Rightarrow> Inl e
                 | Inr out \<Rightarrow> Inr ((push_bit 2 leftchar OR drop_bit 4 v) # out))
              else if quad_pos = 2 then
                (case a2b_base64 rest 3 (v AND 3) 0 of
                   Inl e \<Rightarrow> Inl e
                 | Inr out \<Rightarrow> Inr ((push_bit 4 leftchar OR drop_bit 2 v) # out))
              else
                (case a2b_base64 rest 0 0 0 of
                   Inl e \<Rightarrow> Inl e
                 | Inr out \<Rightarrow> Inr ((push_bit 6 leftchar OR v) # out)))))"

definition b64decode :: "byte list \<Rightarrow> error + byte list" where
  "b64decode s = a2b_base64 s 0 0 0"

definition robust_b64decode :: "byte list \<Rightarrow> error + byte list" where
  "robust_b64decode input_bytes =
     (let filtered_base64 = filter (\<lambda>byte. byte \<in> set BASE64) input_bytes;
          padded_base64 = filtered_base64
            @ replicate (nat ((- int (length filtered_base64)) mod 4)) (of_char CHR ''A'')
      in b64decode padded_base64)"

lemma BASE64_props: "distinct BASE64" "length BASE64 = 64" "BASE64_PAD \<notin> set BASE64"
  "BASE64 ! 0 = of_char CHR ''A''"
  by (simp_all add: BASE64_def BASE64_PAD_def)

lemma mask_numerals: "(3::byte) = mask 2" "(15::byte) = mask 4" "(63::byte) = mask 6"
  by (simp_all add: mask_eq_exp_minus_1)

lemma byte_eqI:
  fixes v w :: byte
  assumes "bit v 0 = bit w 0" "bit v 1 = bit w 1" "bit v 2 = bit w 2" "bit v 3 = bit w 3"
    "bit v 4 = bit w 4" "bit v 5 = bit w 5" "bit v 6 = bit w 6" "bit v 7 = bit w 7"
  shows "v = w"
proof (rule bit_eqI)
  fix n assume "possible_bit TYPE(byte) n"
  then have "n < 8" by (simp add: possible_bit_word)
  then have "n \<in> {0, 1, 2, 3, 4, 5, 6, 7}" by auto
  with assms show "bit v n = bit w n" by auto
qed

lemma byte_high_bits [simp]: "8 \<le> n \<Longrightarrow> \<not> bit (a::byte) n"
  by (auto dest: bit_imp_le_length)

definition sextet :: "byte \<Rightarrow> bool" where
  "sextet v \<longleftrightarrow> unat v < 64"

lemma sextetI:
  fixes v :: byte
  assumes "\<not> bit v 6" "\<not> bit v 7"
  shows "sextet v"
proof -
  have "take_bit 6 v = v"
    by (rule byte_eqI) (use assms in \<open>simp_all add: bit_take_bit_iff\<close>)
  then have "unat v = take_bit 6 (unat v)" by (metis unsigned_take_bit_eq)
  also have "\<dots> < 2 ^ 6" by (rule take_bit_nat_less_exp)
  finally show ?thesis by (simp add: sextet_def)
qed

lemma sextets:
  "sextet (sextet0 a)" "sextet (sextet1 a b)" "sextet (sextet2 b c)" "sextet (sextet3 c)"
  "sextet 0"
  unfolding sextet0_def sextet1_def sextet2_def sextet3_def
  by (rule sextetI; simp add: bit_simps mask_numerals)+

lemma table_b2a:
  assumes "sextet v"
  shows "table_a2b (b2a v) = Some v" "b2a v \<in> set BASE64" "b2a v \<noteq> BASE64_PAD"
proof -
  from assms have v: "unat v < 64" by (simp add: sextet_def)
  have "map_of (zip BASE64 (map of_nat [0..<64] :: byte list)) (BASE64 ! unat v)
      = Some ((map of_nat [0..<64] :: byte list) ! unat v)"
    using v by (intro map_of_zip_nth) (simp_all add: BASE64_props)
  then show "table_a2b (b2a v) = Some v" using v by (simp add: table_a2b_def b2a_def)
  show "b2a v \<in> set BASE64" using v by (simp add: b2a_def BASE64_props)
  then show "b2a v \<noteq> BASE64_PAD" using BASE64_props(3) by auto
qed

definition octet0 :: "byte \<Rightarrow> byte \<Rightarrow> byte" where
  "octet0 s0 s1 = push_bit 2 s0 OR drop_bit 4 s1"

definition octet1 :: "byte \<Rightarrow> byte \<Rightarrow> byte" where
  "octet1 s1 s2 = push_bit 4 (s1 AND 15) OR drop_bit 2 s2"

definition octet2 :: "byte \<Rightarrow> byte \<Rightarrow> byte" where
  "octet2 s2 s3 = push_bit 6 (s2 AND 3) OR s3"

lemma a2b_quad:
  assumes "sextet s0" "sextet s1" "sextet s2" "sextet s3"
  shows "a2b_base64 (b2a s0 # b2a s1 # b2a s2 # b2a s3 # rest) 0 l p =
     (case a2b_base64 rest 0 0 0 of
        Inl e \<Rightarrow> Inl e
      | Inr out \<Rightarrow> Inr (octet0 s0 s1 # octet1 s1 s2 # octet2 s2 s3 # out))"
  unfolding octet0_def octet1_def octet2_def
  using table_b2a [OF assms(1)] table_b2a [OF assms(2)] table_b2a [OF assms(3)]
    table_b2a [OF assms(4)]
  by (simp split: sum.splits)

lemma octet_identities:
  "octet0 (sextet0 a) (sextet1 a b) = a"
  "octet1 (sextet1 a b) (sextet2 b c) = b"
  "octet2 (sextet2 b c) (sextet3 c) = c"
  "octet1 (sextet1 a 0) 0 = 0"
  "octet2 0 0 = 0"
  "octet2 (sextet2 b 0) 0 = 0"
  unfolding octet0_def octet1_def octet2_def sextet0_def sextet1_def sextet2_def sextet3_def
  by (rule byte_eqI; simp add: bit_simps mask_numerals)+

fun b64chars :: "byte list \<Rightarrow> byte list" where
  "b64chars [] = []"
| "b64chars [a] = [b2a (sextet0 a), b2a (sextet1 a 0)]"
| "b64chars [a, b] = [b2a (sextet0 a), b2a (sextet1 a b), b2a (sextet2 b 0)]"
| "b64chars (a # b # c # rest) =
     [b2a (sextet0 a), b2a (sextet1 a b), b2a (sextet2 b c), b2a (sextet3 c)] @ b64chars rest"

lemma filter_b64encode: "filter (\<lambda>byte. byte \<in> set BASE64) (b64encode c) = b64chars c"
  by (induction c rule: b64encode.induct)
    (simp_all add: table_b2a(2) [OF sextets(1)] table_b2a(2) [OF sextets(2)]
      table_b2a(2) [OF sextets(3)] table_b2a(2) [OF sextets(4)] BASE64_props(3))

lemma a2b_padded:
  "a2b_base64 (b64chars c @ replicate (nat ((- int (length (b64chars c))) mod 4)) (b2a 0)) 0 0 0
     = Inr (c @ replicate ((3 - length c mod 3) mod 3) 0)"
proof (induction c rule: b64chars.induct)
  case 1
  then show ?case by simp
next
  case (2 a)
  have "a2b_base64 [b2a (sextet0 a), b2a (sextet1 a 0), b2a 0, b2a 0] 0 0 0 = Inr [a, 0, 0]"
    by (subst a2b_quad [OF sextets(1) sextets(2) sextets(5) sextets(5)])
      (simp add: octet_identities)
  then show ?case by (simp add: numeral_2_eq_2)
next
  case (3 a b)
  have "a2b_base64 [b2a (sextet0 a), b2a (sextet1 a b), b2a (sextet2 b 0), b2a 0] 0 0 0
      = Inr [a, b, 0]"
    by (subst a2b_quad [OF sextets(1) sextets(2) sextets(3) sextets(5)])
      (simp add: octet_identities)
  then show ?case by simp
next
  case (4 a b c rest)
  have p: "nat ((- int (length (b64chars (a # b # c # rest)))) mod 4)
      = nat ((- int (length (b64chars rest))) mod 4)"
  proof -
    have "- int (length (b64chars (a # b # c # rest))) = - int (length (b64chars rest)) + (- 1) * 4"
      by simp
    then show ?thesis by (simp only: mod_mult_self1)
  qed
  have z: "(3 - length (a # b # c # rest) mod 3) mod 3 = (3 - length rest mod 3) mod 3"
    by simp
  show ?case
    unfolding p z
    unfolding b64chars.simps append.simps
    by (subst a2b_quad [OF sextets(1) sextets(2) sextets(3) sextets(4)])
      (simp only: "4.IH" sum.case octet_identities append.simps)
qed

lemma robust_b64decode_padded:
  assumes "filter (\<lambda>byte. byte \<in> set BASE64) x = filter (\<lambda>byte. byte \<in> set BASE64) (b64encode c)"
  shows "robust_b64decode x = Inr (c @ replicate ((3 - length c mod 3) mod 3) 0)"
proof -
  have a: "of_char CHR ''A'' = b2a 0" by (simp add: b2a_def BASE64_props(4))
  show ?thesis
    unfolding robust_b64decode_def Let_def b64decode_def assms filter_b64encode a
    by (rule a2b_padded)
qed

text \<open>
  Claim C9 (robust base64 ingestion). \<open>robust_b64decode\<close> removes every byte outside the
  64-character alphabet, pads the remainder with \<open>A\<close> bytes to a multiple of 4 and
  base64-decodes the result. Let \<open>x\<close> be obtained from the standard base64 encoding of
  \<open>c\<close> by inserting bytes outside the alphabet and removing \<open>=\<close> padding, that is, the
  bytes of \<open>x\<close> inside the alphabet are those of \<open>b64encode c\<close>. Then \<open>robust_b64decode x\<close>
  succeeds and returns \<open>c\<close> followed by \<open>(3 - length c mod 3) mod 3\<close> zero bytes: each
  \<open>A\<close> of the padding stands for six zero bits. The result is \<open>c\<close> itself exactly when the
  length of \<open>c\<close> is a multiple of 3.
\<close>

theorem robust_b64decode_recovers:
  assumes "filter (\<lambda>byte. byte \<in> set BASE64) x
    = filter (\<lambda>byte. byte \<in> set BASE64) (b64encode c)"
  shows "robust_b64decode x
      = b64decode (filter (\<lambda>byte. byte \<in> set BASE64) x
          @ replicate (nat ((- int (length (filter (\<lambda>byte. byte \<in> set BASE64) x))) mod 4))
              (of_char CHR ''A''))
    \<and> robust_b64decode x = Inr (c @ replicate ((3 - length c mod 3) mod 3) 0)"
  using robust_b64decode_padded [OF assms] by (simp add: robust_b64decode_def Let_def)

theorem robust_b64decode_recovers_witness:
  "b64encode [104, 105] = [97, 71, 107, 61]
   \<and> filter (\<lambda>byte. byte \<in> set BASE64) [97, 71, 10, 107]
       = filter (\<lambda>byte. byte \<in> set BASE64) (b64encode [104, 105])
   \<and> robust_b64decode [97, 71, 10, 107] = Inr [104, 105, 0]"
proof -
  have e: "b64encode [104, 105] = [97, 71, 107, 61]" by code_simp
  have h: "filter (\<lambda>byte. byte \<in> set BASE64) [97, 71, 10, 107]
       = filter (\<lambda>byte. byte \<in> set BASE64) (b64encode [104, 105])"
    by code_simp
  have r: "[104, 105] @ replicate ((3 - length [104, 105 :: byte] mod 3) mod 3) 0
      = [104, 105, 0 :: byte]"
    by simp
  have "robust_b64decode [97, 71, 10, 107] = Inr [104, 105, 0]"
    using robust_b64decode_recovers [OF h] unfolding r by (rule conjunct2)
  with e h show ?thesis by (simp only: simp_thms)
qed

text \<open>
  The claim as stated fails when the length of \<open>c\<close> is not a multiple of 3: the encoding of
  the single byte \<open>a\<close> is \<open>YQ==\<close>; without its padding and with a newline added it is decoded
  to three bytes.
\<close>

theorem robust_b64decode_counterexample:
  "b64encode [97] = [89, 81, 61, 61]
   \<and> robust_b64decode [89, 81, 10] = Inr [97, 0, 0]
   \<and> [97, 0, 0] \<noteq> [97 :: byte]"
proof -
  have "b64encode [97] = [89, 81, 61, 61]" by code_simp
  moreover have "robust_b64decode [89, 81, 10] = Inr [97, 0, 0]" by code_simp
  ultimately show ?thesis by simp
qed

end
